theory Spec2Isabelle
  imports Complex_Main "HOL-Library.Word" "HOL-Library.Sublist"
begin

unbundle bit_operations_syntax

section \<open>Protocol constants (config: PROTOCOL_CONFIG, SERIAL_CONFIG)\<close>

type_synonym byte = "8 word"

definition SYNC_WORD :: nat where
  "SYNC_WORD = 0xAA55"


definition PACKET_MAX_SIZE :: nat where
  "PACKET_MAX_SIZE = 256"

section \<open>Checksum (protocol/checksum)\<close>

text \<open>
  \<^verbatim>\<open>let checksum = 0; for (i ...) checksum ^= data[i]; return checksum & 0xff;\<close>
  The accumulator only ever holds XORs of bytes, so it is kept as a byte; the final
  mask is written out as in the source.
\<close>

definition calculateChecksum :: "byte list \<Rightarrow> byte" where
  "calculateChecksum data = (foldl (\<lambda>checksum d. checksum XOR d) 0 data) AND 0xff"

definition verifyChecksum :: "byte list \<Rightarrow> byte \<Rightarrow> bool" where
  "verifyChecksum data checksum = (calculateChecksum data = checksum)"

section \<open>Packet codec (protocol/packet)\<close>

record Packet =
  sync :: nat
  length_f :: byte
  command :: byte
  payload :: "byte list"
  checksum :: byte

text \<open>The three \<^verbatim>\<open>ProtocolError\<close>s of \<^verbatim>\<open>parsePacket\<close>, each with its context object.\<close>

datatype ProtocolError =
    PacketTooSmall nat          \<comment> \<open>'Packet too small', size\<close>
  | InvalidSyncWord nat         \<comment> \<open>'Invalid sync word', sync\<close>
  | IncompletePacket nat nat    \<comment> \<open>'Incomplete packet', expected, got\<close>

text \<open>\<^verbatim>\<open>DataView.getUint16(off, false)\<close>: big-endian.\<close>

definition getUint16 :: "byte list \<Rightarrow> nat \<Rightarrow> nat" where
  "getUint16 b off = unat (b ! off) * 256 + unat (b ! (off + 1))"

text \<open>\<^verbatim>\<open>Uint8Array.slice(a, b)\<close> for \<open>0 \<le> a \<le> b\<close>; the end is clamped to the length.\<close>

definition slice :: "'a list \<Rightarrow> nat \<Rightarrow> nat \<Rightarrow> 'a list" where
  "slice xs a b = take (b - a) (drop a xs)"

definition parsePacket :: "byte list \<Rightarrow> ProtocolError + Packet" where
  "parsePacket buffer =
     (if length buffer < 5 then Inl (PacketTooSmall (length buffer))
      else
        let sync = getUint16 buffer 0 in
        if sync \<noteq> SYNC_WORD then Inl (InvalidSyncWord sync)
        else
          let len = unat (buffer ! 2); command = buffer ! 3 in
          if length buffer < 4 + len + 1
          then Inl (IncompletePacket (4 + len + 1) (length buffer))
          else Inr \<lparr> sync = sync, length_f = buffer ! 2, command = command,
                     payload = slice buffer 4 (4 + len),
                     checksum = buffer ! (4 + len) \<rparr>)"




text \<open>The four bytes of a 32-bit pattern, lowest byte first.\<close>

definition le_bytes :: "32 word \<Rightarrow> byte list" where
  "le_bytes w = [ucast w, ucast (drop_bit 8 w), ucast (drop_bit 16 w), ucast (drop_bit 24 w)]"




section \<open>Stream frame synchroniser (serial/reader)\<close>

datatype ReaderState = IDLE | SYNCING | READING_HEADER | READING_PAYLOAD

text \<open>What reaches the two callbacks, in call order.\<close>

datatype event = OnPacket Packet | OnError ProtocolError

record SerialReader =
  state :: ReaderState
  buffer :: "byte list"
  bufferIndex :: nat
  expectedLength :: nat
  isReading :: bool
  sink :: "event list"

text \<open>Field initialisers of the class: a zeroed \<^verbatim>\<open>Uint8Array(PACKET_MAX_SIZE)\<close>.\<close>

definition new_SerialReader :: SerialReader where
  "new_SerialReader =
     \<lparr> state = IDLE, buffer = replicate PACKET_MAX_SIZE 0, bufferIndex = 0,
       expectedLength = 0, isReading = False, sink = [] \<rparr>"

text \<open>
  \<^verbatim>\<open>this.buffer[this.bufferIndex++] = byte\<close>. A typed array drops a store past its
  end, as \<open>list_update\<close> does; the cursor is a plain number and still advances.
\<close>

definition store_byte :: "SerialReader \<Rightarrow> byte \<Rightarrow> SerialReader" where
  "store_byte r byte =
     r\<lparr> buffer := (buffer r)[bufferIndex r := byte], bufferIndex := bufferIndex r + 1 \<rparr>"

definition handleSyncing :: "SerialReader \<Rightarrow> byte \<Rightarrow> SerialReader" where
  "handleSyncing r0 byte =
     (let r = store_byte r0 byte in
      if bufferIndex r \<ge> 2 then
        (if getUint16 (buffer r) 0 = SYNC_WORD
         then r\<lparr> state := READING_HEADER \<rparr>
         else r\<lparr> buffer := (buffer r)[0 := buffer r ! 1], bufferIndex := 1 \<rparr>)
      else r)"

definition handleReadingHeader :: "SerialReader \<Rightarrow> byte \<Rightarrow> SerialReader" where
  "handleReadingHeader r0 byte =
     (let r = store_byte r0 byte in
      if bufferIndex r \<ge> 4
      then r\<lparr> expectedLength := unat (buffer r ! 2), state := READING_PAYLOAD \<rparr>
      else r)"

definition processPacket :: "SerialReader \<Rightarrow> SerialReader" where
  "processPacket r =
     (let packetData = slice (buffer r) 0 (bufferIndex r) in
      case parsePacket packetData of
        Inr packet \<Rightarrow> r\<lparr> sink := sink r @ [OnPacket packet] \<rparr>
      | Inl err \<Rightarrow> r\<lparr> sink := sink r @ [OnError err] \<rparr>)"

definition resetState :: "SerialReader \<Rightarrow> SerialReader" where
  "resetState r = r\<lparr> state := SYNCING, bufferIndex := 0, expectedLength := 0 \<rparr>"

definition handleReadingPayload :: "SerialReader \<Rightarrow> byte \<Rightarrow> SerialReader" where
  "handleReadingPayload r0 byte =
     (let r = store_byte r0 byte;
          totalExpected = 4 + expectedLength r + 1 in
      if bufferIndex r \<ge> totalExpected then resetState (processPacket r) else r)"

text \<open>One iteration of the \<^verbatim>\<open>for (const byte of data)\<close> loop; \<^verbatim>\<open>IDLE\<close> has no case.\<close>

definition process_byte :: "SerialReader \<Rightarrow> byte \<Rightarrow> SerialReader" where
  "process_byte r byte =
     (case state r of
        SYNCING \<Rightarrow> handleSyncing r byte
      | READING_HEADER \<Rightarrow> handleReadingHeader r byte
      | READING_PAYLOAD \<Rightarrow> handleReadingPayload r byte
      | IDLE \<Rightarrow> r)"

definition processBytes :: "SerialReader \<Rightarrow> byte list \<Rightarrow> SerialReader" where
  "processBytes r data = foldl process_byte r data"

text \<open>
  \<^verbatim>\<open>start()\<close> over the chunks the transport hands out before it reports \<^verbatim>\<open>done\<close>:
  the read loop calls \<^verbatim>\<open>processBytes\<close> on each chunk in turn, and the
  \<^verbatim>\<open>finally\<close> clears \<^verbatim>\<open>isReading\<close>.
\<close>

definition start :: "SerialReader \<Rightarrow> byte list list \<Rightarrow> SerialReader" where
  "start r chunks =
     (if isReading r then r
      else (foldl processBytes (r\<lparr> isReading := True, state := SYNCING, bufferIndex := 0 \<rparr>) chunks)
             \<lparr> isReading := False \<rparr>)"

text \<open>
  The scratch buffer after the bytes \<open>xs\<close> were stored one by one from cursor \<open>n\<close> on
  (each store as in \<open>store_byte\<close>, so the ones past the end are dropped).
\<close>

fun blit :: "'a list \<Rightarrow> nat \<Rightarrow> 'a list \<Rightarrow> 'a list" where
  "blit buf n [] = buf"
| "blit buf n (x # xs) = blit (buf[n := x]) (Suc n) xs"

text \<open>The wire frame of the layout table: sync, length, command, payload, checksum.\<close>

definition frame :: "byte \<Rightarrow> byte \<Rightarrow> byte list \<Rightarrow> byte \<Rightarrow> byte list" where
  "frame len cmd pl chk = [0xAA, 0x55, len, cmd] @ pl @ [chk]"

text \<open>
  A valid frame: the length byte counts the payload, the checksum is the XOR-fold of
  command and payload, and the frame fits the reader's scratch buffer.
\<close>

definition valid_frame :: "byte list \<Rightarrow> bool" where
  "valid_frame f \<longleftrightarrow>
     length f \<ge> 5 \<and> length f \<le> PACKET_MAX_SIZE \<and>
     f = frame (f ! 2) (f ! 3) (slice f 4 (length f - 1)) (calculateChecksum (slice f 3 (length f - 1))) \<and>
     unat (f ! 2) = length f - 5"

text \<open>The packet a frame stands for.\<close>

definition packet_of :: "byte list \<Rightarrow> Packet" where
  "packet_of f = \<lparr> sync = SYNC_WORD, length_f = f ! 2, command = f ! 3,
                   payload = slice f 4 (length f - 1), checksum = f ! (length f - 1) \<rparr>"

text \<open>
  What the reader reports once a frame with length byte \<open>len\<close> has been taken in whole:
  the packet when the frame fits the scratch buffer, the decode error otherwise.
\<close>

definition frame_event :: "byte \<Rightarrow> byte \<Rightarrow> byte list \<Rightarrow> byte \<Rightarrow> event" where
  "frame_event len cmd pl chk =
     (if 4 + unat len + 1 \<le> PACKET_MAX_SIZE
      then OnPacket \<lparr> sync = SYNC_WORD, length_f = len, command = cmd, payload = pl, checksum = chk \<rparr>
      else OnError (IncompletePacket (4 + unat len + 1) PACKET_MAX_SIZE))"

text \<open>The reader as \<^verbatim>\<open>start()\<close> leaves it before the first read.\<close>

definition started :: SerialReader where
  "started = new_SerialReader\<lparr> isReading := True, state := SYNCING, bufferIndex := 0 \<rparr>"

text \<open>Does the byte sequence hold the sync constant \<open>0xAA 0x55\<close> somewhere?\<close>

fun has_sync :: "byte list \<Rightarrow> bool" where
  "has_sync (x # y # zs) = ((x = 0xAA \<and> y = 0x55) \<or> has_sync (y # zs))"
| "has_sync _ = False"

definition packets :: "SerialReader \<Rightarrow> Packet list" where
  "packets r = concat (map (\<lambda>e. case e of OnPacket p \<Rightarrow> [p] | OnError _ \<Rightarrow> []) (sink r))"

text \<open>
  A delivered packet is framed in the stream \<open>xs\<close>: its fields, laid out as a wire
  frame, are a contiguous run of bytes of \<open>xs\<close>, the payload as long as the length
  byte says.
\<close>

definition framed_in :: "byte list \<Rightarrow> Packet \<Rightarrow> bool" where
  "framed_in xs p \<longleftrightarrow>
     sync p = SYNC_WORD \<and> length (payload p) = unat (length_f p) \<and>
     sublist (frame (length_f p) (command p) (payload p) (checksum p)) xs"

text \<open>The cursor and buffer shapes the transition functions keep in each state.\<close>

definition shape_ok :: "SerialReader \<Rightarrow> bool" where
  "shape_ok r \<longleftrightarrow>
     length (buffer r) = PACKET_MAX_SIZE \<and>
     (case state r of
        IDLE \<Rightarrow> False
      | SYNCING \<Rightarrow> bufferIndex r \<le> 1
      | READING_HEADER \<Rightarrow>
          (bufferIndex r = 2 \<or> bufferIndex r = 3) \<and> buffer r ! 0 = 0xAA \<and> buffer r ! 1 = 0x55
      | READING_PAYLOAD \<Rightarrow>
          4 \<le> bufferIndex r \<and> bufferIndex r < 5 + expectedLength r \<and>
          expectedLength r = unat (buffer r ! 2) \<and> buffer r ! 0 = 0xAA \<and> buffer r ! 1 = 0x55)"

text \<open>While the cursor is inside the buffer, the buffered bytes are the last bytes read.\<close>

definition tail_ok :: "byte list \<Rightarrow> SerialReader \<Rightarrow> bool" where
  "tail_ok xs r \<longleftrightarrow>
     (bufferIndex r \<le> PACKET_MAX_SIZE \<longrightarrow> suffix (take (bufferIndex r) (buffer r)) xs)"

definition packets_ok :: "byte list \<Rightarrow> SerialReader \<Rightarrow> bool" where
  "packets_ok xs r \<longleftrightarrow> (\<forall>p \<in> set (packets r). framed_in xs p)"

section \<open>Throttled writer (serial/writer)\<close>

text \<open>
  \<^verbatim>\<open>processQueue\<close> is an async function: it gives up control at \<^verbatim>\<open>await sleep(...)\<close>
  and at \<^verbatim>\<open>await this.writer.write(data)\<close>, and other calls of \<^verbatim>\<open>write\<close> and
  \<^verbatim>\<open>clearQueue\<close> run in between. Where the one running drain is suspended is kept as
  an explicit continuation beside the fields of the class.
\<close>

datatype 'a drain =
    NoDrain       \<comment> \<open>no \<^verbatim>\<open>processQueue\<close> is suspended\<close>
  | Sleeping      \<comment> \<open>inside \<^verbatim>\<open>await sleep(this.throttleMs - timeSinceLastWrite)\<close>\<close>
  | Writing 'a    \<comment> \<open>inside \<^verbatim>\<open>await this.writer.write(data)\<close>\<close>

text \<open>
  \<open>transport\<close> lists the buffers handed to \<^verbatim>\<open>this.writer.write\<close>, in call order.
  The frames are of any type \<open>'a\<close> (\<^verbatim>\<open>Uint8Array\<close> objects in the source; always truthy).
  \<^verbatim>\<open>throttleMs = 1000 / throttleHz\<close> is kept as \<open>throttleHz\<close>, and
  \<^verbatim>\<open>timeSinceLastWrite < this.throttleMs\<close> is written \<open>timeSinceLastWrite * throttleHz < 1000\<close>
  (the same for \<open>throttleHz > 0\<close>, and for 0, where \<^verbatim>\<open>throttleMs\<close> is \<^verbatim>\<open>Infinity\<close>).
\<close>

record 'a SerialWriter =
  queue :: "'a list"
  isWriting :: bool
  throttleHz :: int
  lastWriteTime :: int
  drain :: "'a drain"
  transport :: "'a list"

definition maxQueueSize :: nat where
  "maxQueueSize = 10"

definition new_SerialWriter :: "int \<Rightarrow> 'a SerialWriter" where
  "new_SerialWriter hz =
     \<lparr> queue = [], isWriting = False, throttleHz = hz, lastWriteTime = 0,
       drain = NoDrain, transport = [] \<rparr>"

text \<open>
  From \<^verbatim>\<open>const data = this.queue.shift()\<close> to the next suspension. With an empty queue
  (cleared during the sleep) \<^verbatim>\<open>data\<close> is \<^verbatim>\<open>undefined\<close>, the \<^verbatim>\<open>if (data)\<close> is skipped, the
  loop test fails at once and \<^verbatim>\<open>isWriting\<close> is cleared.
\<close>

definition shift_and_write :: "'a SerialWriter \<Rightarrow> 'a SerialWriter" where
  "shift_and_write w =
     (case queue w of
        [] \<Rightarrow> w\<lparr> isWriting := False, drain := NoDrain \<rparr>
      | data # rest \<Rightarrow>
          w\<lparr> queue := rest, transport := transport w @ [data], drain := Writing data \<rparr>)"

text \<open>The loop test and the throttle check, at clock value \<open>now\<close>.\<close>

definition loop_head :: "'a SerialWriter \<Rightarrow> int \<Rightarrow> 'a SerialWriter" where
  "loop_head w now =
     (if length (queue w) > 0 then
        (let timeSinceLastWrite = now - lastWriteTime w in
         if timeSinceLastWrite * throttleHz w < 1000
         then w\<lparr> drain := Sleeping \<rparr>
         else shift_and_write w)
      else w\<lparr> isWriting := False, drain := NoDrain \<rparr>)"

definition processQueue :: "'a SerialWriter \<Rightarrow> int \<Rightarrow> 'a SerialWriter" where
  "processQueue w now = loop_head (w\<lparr> isWriting := True \<rparr>) now"

text \<open>
  \<^verbatim>\<open>write(data)\<close> up to its first suspension (\<open>write\<close> is an Isabelle keyword, hence
  the name); \<^verbatim>\<open>slice(-maxQueueSize + 1)\<close> keeps the last 9.
\<close>

definition write_data :: "'a SerialWriter \<Rightarrow> 'a \<Rightarrow> int \<Rightarrow> 'a SerialWriter" where
  "write_data w data now =
     (let w1 = (if length (queue w) \<ge> maxQueueSize
                then w\<lparr> queue := drop (length (queue w) - (maxQueueSize - 1)) (queue w) \<rparr>
                else w);
          w2 = w1\<lparr> queue := queue w1 @ [data] \<rparr>
      in if \<not> isWriting w2 then processQueue w2 now else w2)"

definition clearQueue :: "'a SerialWriter \<Rightarrow> 'a SerialWriter" where
  "clearQueue w = w\<lparr> queue := [] \<rparr>"

definition getQueueSize :: "'a SerialWriter \<Rightarrow> nat" where
  "getQueueSize w = length (queue w)"

text \<open>
  What can happen to a writer, one turn of the event loop each: a call of \<^verbatim>\<open>write\<close> or
  \<^verbatim>\<open>clearQueue\<close>, the end of the sleep, and the end of the transport write, which
  succeeded or failed. The integers are what \<^verbatim>\<open>Date.now()\<close> returns in that turn
  (after the write, and at the next loop test).
\<close>

datatype 'a wevent =
    Call_write 'a int
  | Call_clearQueue
  | Sleep_done
  | Write_done bool int int

text \<open>
  A failed transport write makes \<^verbatim>\<open>processQueue\<close> throw from inside the loop: the
  drain is gone and the line \<^verbatim>\<open>this.isWriting = false\<close> is never reached. The end of
  a sleep or of a write that no drain waits for cannot happen; it changes nothing.
\<close>

fun wstep :: "'a SerialWriter \<Rightarrow> 'a wevent \<Rightarrow> 'a SerialWriter" where
  "wstep w (Call_write data now) = write_data w data now"
| "wstep w Call_clearQueue = clearQueue w"
| "wstep w Sleep_done =
     (case drain w of Sleeping \<Rightarrow> shift_and_write w | _ \<Rightarrow> w)"
| "wstep w (Write_done ok t now) =
     (case drain w of
        Writing data \<Rightarrow>
          (if ok then loop_head (w\<lparr> lastWriteTime := t \<rparr>) now
           else w\<lparr> drain := NoDrain \<rparr>)
      | _ \<Rightarrow> w)"

definition wrun :: "'a SerialWriter \<Rightarrow> 'a wevent list \<Rightarrow> 'a SerialWriter" where
  "wrun w evs = foldl wstep w evs"



text \<open>The backlog after the overflow rule of \<^verbatim>\<open>write\<close>, before the new frame is pushed.\<close>

definition capped :: "'a list \<Rightarrow> 'a list" where
  "capped q = (if length q \<ge> maxQueueSize then drop (length q - (maxQueueSize - 1)) q else q)"

text \<open>
  What holds of a writer between turns: the backlog is within capacity, and only a
  writer whose \<^verbatim>\<open>isWriting\<close> is set has a backlog or a suspended drain.
\<close>

definition winv :: "'a SerialWriter \<Rightarrow> bool" where
  "winv w \<longleftrightarrow>
     length (queue w) \<le> maxQueueSize \<and> (\<not> isWriting w \<longrightarrow> queue w = [] \<and> drain w = NoDrain)"

section \<open>CDN manifest resolver (CDNAssetLoader)\<close>

record AssetInfo =
  original :: string
  processed :: string
  hash :: string
  size_f :: nat
  type_f :: string
  url :: "string option"
  path :: "string option"

record AssetManifest =
  version :: string
  generated :: string
  processor :: "string option"
  assets :: "AssetInfo list"

text \<open>
  The parsed response body as \<^verbatim>\<open>validateManifest\<close> looks at it: something that is not
  an object (\<^verbatim>\<open>!manifest || typeof manifest !== 'object'\<close>), or an object seen through
  the cast \<^verbatim>\<open>manifest as Partial<AssetManifest>\<close>, each field possibly missing;
  \<open>p_assets\<close> is \<open>None\<close> when \<^verbatim>\<open>Array.isArray(m.assets)\<close> is false.
\<close>

datatype body =
    NonObject
  | PartialManifest (p_version: "string option") (p_generated: "string option")
      (p_processor: "string option") (p_assets: "AssetInfo list option")

text \<open>What one \<^verbatim>\<open>fetch(this.manifestUrl)\<close> and \<^verbatim>\<open>response.json()\<close> can give.\<close>

datatype fetch_result =
    Fetch_rejects string                         \<comment> \<open>\<^verbatim>\<open>fetch\<close> throws: network error\<close>
  | Response bool nat string "string + body"    \<comment> \<open>\<^verbatim>\<open>ok\<close>, \<^verbatim>\<open>status\<close>, \<^verbatim>\<open>statusText\<close>, \<^verbatim>\<open>json()\<close> (\<open>Inl\<close>: it throws)\<close>

text \<open>The errors thrown inside the \<^verbatim>\<open>try\<close> of one attempt.\<close>

datatype attempt_error =
    NetworkError string
  | HttpError nat string          \<comment> \<open>\<^verbatim>\<open>HTTP ${status}: ${statusText}\<close>\<close>
  | JsonError string
  | NotAnObject                   \<comment> \<open>'Invalid manifest: not an object'\<close>
  | MissingFields                 \<comment> \<open>'Invalid manifest: missing required fields'\<close>

text \<open>The errors the loader throws to its caller.\<close>

datatype cdn_fault =
    ManifestLoadFailed nat attempt_error   \<comment> \<open>\<^verbatim>\<open>Failed to load manifest after ${retryAttempts} attempts: ${error}\<close>\<close>
  | ManifestLoadFailedPlain                \<comment> \<open>'Failed to load manifest', after the loop\<close>
  | AssetNotFound string                   \<comment> \<open>\<^verbatim>\<open>Asset not found in manifest: ${originalName}\<close>\<close>

text \<open>What the loader does to the outside, in order.\<close>

datatype effect = Fetch string | Sleep nat

record CDNAssetLoader =
  manifest :: "AssetManifest option"
  manifestCache :: "string \<rightharpoonup> AssetManifest \<times> int"
  assetUrlCache :: "string \<rightharpoonup> string"
  manifestUrl :: string
  publicUrl :: string
  cacheTimeout :: int
  retryAttempts :: nat
  retryDelay :: nat

text \<open>The constructor, from the \<^verbatim>\<open>CDN_CONFIG\<close> values (defaults: 5 minutes, 3 attempts, 1000 ms).\<close>

definition new_CDNAssetLoader :: "string \<Rightarrow> string \<Rightarrow> int \<Rightarrow> nat \<Rightarrow> nat \<Rightarrow> CDNAssetLoader" where
  "new_CDNAssetLoader murl purl timeout attempts delay =
     \<lparr> manifest = None, manifestCache = Map.empty, assetUrlCache = Map.empty,
       manifestUrl = murl, publicUrl = purl, cacheTimeout = timeout,
       retryAttempts = attempts, retryDelay = delay \<rparr>"

text \<open>
  The world during one call: \<open>now\<close> is \<^verbatim>\<open>Date.now()\<close> at the cache check,
  \<open>fetch k\<close> what the \<open>k\<close>-th attempt gets, \<open>clock k\<close> is \<^verbatim>\<open>Date.now()\<close> when attempt
  \<open>k\<close> stores its manifest.
\<close>

record world =
  now :: int
  fetch :: "nat \<Rightarrow> fetch_result"
  clock :: "nat \<Rightarrow> int"

text \<open>
  JavaScript truthiness of an optional string: a missing value and \<^verbatim>\<open>""\<close> are falsy.
  \<open>truthy v\<close> is the string when \<open>v\<close> is truthy.
\<close>

definition truthy :: "string option \<Rightarrow> string option" where
  "truthy v = (case v of None \<Rightarrow> None | Some s \<Rightarrow> if s = [] then None else Some s)"

definition validateManifest :: "body \<Rightarrow> attempt_error + AssetManifest" where
  "validateManifest b =
     (case b of
        NonObject \<Rightarrow> Inl NotAnObject
      | PartialManifest v g p a \<Rightarrow>
          (case (truthy v, truthy g, a) of
             (Some v', Some g', Some a') \<Rightarrow>
               Inr \<lparr> version = v', generated = g', processor = p, assets = a' \<rparr>
           | _ \<Rightarrow> Inl MissingFields))"

text \<open>The body of the \<^verbatim>\<open>try\<close>: fetch, status check, parse, validate.\<close>

definition attempt_outcome :: "fetch_result \<Rightarrow> attempt_error + AssetManifest" where
  "attempt_outcome r =
     (case r of
        Fetch_rejects msg \<Rightarrow> Inl (NetworkError msg)
      | Response ok status statusText js \<Rightarrow>
          (if \<not> ok then Inl (HttpError status statusText)
           else case js of Inl msg \<Rightarrow> Inl (JsonError msg) | Inr b \<Rightarrow> validateManifest b))"

text \<open>The \<^verbatim>\<open>for (let attempt = 1; attempt <= this.retryAttempts; attempt++)\<close> loop.\<close>

function retry_loop ::
  "CDNAssetLoader \<Rightarrow> world \<Rightarrow> nat \<Rightarrow> (cdn_fault + AssetManifest) \<times> effect list \<times> CDNAssetLoader" where
  "retry_loop L E attempt =
     (if attempt \<le> retryAttempts L then
        (case attempt_outcome (fetch E attempt) of
           Inr m \<Rightarrow>
             (Inr m, [Fetch (manifestUrl L)],
              L\<lparr> manifestCache := (manifestCache L)(manifestUrl L \<mapsto> (m, clock E attempt)),
                 manifest := Some m \<rparr>)
         | Inl err \<Rightarrow>
             (if attempt < retryAttempts L then
                (case retry_loop L E (attempt + 1) of
                   (r, tr, L') \<Rightarrow> (r, [Fetch (manifestUrl L), Sleep (retryDelay L)] @ tr, L'))
              else (Inl (ManifestLoadFailed (retryAttempts L) err), [Fetch (manifestUrl L)], L)))
      else (Inl ManifestLoadFailedPlain, [], L))"
  by pat_completeness auto
termination
  by (relation "measure (\<lambda>(L, E, attempt). retryAttempts L + 1 - attempt)") auto

definition loadManifest ::
  "CDNAssetLoader \<Rightarrow> world \<Rightarrow> (cdn_fault + AssetManifest) \<times> effect list \<times> CDNAssetLoader" where
  "loadManifest L E =
     (case manifestCache L (manifestUrl L) of
        Some (data, timestamp) \<Rightarrow>
          (if now E - timestamp < cacheTimeout L then (Inr data, [], L) else retry_loop L E 1)
      | None \<Rightarrow> retry_loop L E 1)"

definition constructAssetUrl :: "CDNAssetLoader \<Rightarrow> AssetInfo \<Rightarrow> string" where
  "constructAssetUrl L asset =
     (if type_f asset = ''application/xml''
      then publicUrl L @ ''/'' @ processed asset
      else publicUrl L @ ''/assets/'' @ processed asset)"

text \<open>
  \<^verbatim>\<open>if (!this.manifest) { await this.loadManifest(); }\<close>: the manifest returned is not
  used, a fault goes on to the caller.
\<close>

definition ensure_manifest ::
  "CDNAssetLoader \<Rightarrow> world \<Rightarrow> cdn_fault option \<times> effect list \<times> CDNAssetLoader" where
  "ensure_manifest L E =
     (if manifest L = None then
        (case loadManifest L E of
           (Inl fault, tr, L1) \<Rightarrow> (Some fault, tr, L1)
         | (Inr _, tr, L1) \<Rightarrow> (None, tr, L1))
      else (None, [], L))"

text \<open>
  \<^verbatim>\<open>getAssetUrl(originalName)\<close>. \<^verbatim>\<open>if (cached)\<close> and \<^verbatim>\<open>asset.url || ...\<close> test truthiness;
  \<^verbatim>\<open>this.manifest?.assets.find(...)\<close> is \<^verbatim>\<open>undefined\<close> when no manifest is held.
\<close>

definition getAssetUrl ::
  "CDNAssetLoader \<Rightarrow> world \<Rightarrow> string \<Rightarrow> (cdn_fault + string) \<times> effect list \<times> CDNAssetLoader" where
  "getAssetUrl L E originalName =
     (case truthy (assetUrlCache L originalName) of
        Some cached \<Rightarrow> (Inr cached, [], L)
      | None \<Rightarrow>
        (case ensure_manifest L E of
           (Some fault, tr, L1) \<Rightarrow> (Inl fault, tr, L1)
         | (None, tr, L1) \<Rightarrow>
             (case (case manifest L1 of None \<Rightarrow> None
                    | Some m \<Rightarrow> find (\<lambda>a. original a = originalName) (assets m)) of
                None \<Rightarrow> (Inl (AssetNotFound originalName), tr, L1)
              | Some asset \<Rightarrow>
                  (let u = (case truthy (url asset) of Some u \<Rightarrow> u
                            | None \<Rightarrow> constructAssetUrl L1 asset)
                   in (Inr u, tr, L1\<lparr> assetUrlCache := (assetUrlCache L1)(originalName \<mapsto> u) \<rparr>)))))"

text \<open>
  The URL of a found entry in the words of the specification: the entry's explicit
  \<open>url\<close> if present (a \<open>url\<close> of \<^verbatim>\<open>""\<close> counts as absent), otherwise the public base URL
  plus \<open>/\<close> for the entry-point document type \<open>application/xml\<close> and plus \<open>/assets/\<close>
  for every other type, followed by the processed name.
\<close>

definition spec_asset_url :: "string \<Rightarrow> AssetInfo \<Rightarrow> string" where
  "spec_asset_url pub a =
     (case url a of
        Some u \<Rightarrow>
          if u \<noteq> [] then u
          else if type_f a = ''application/xml'' then pub @ ''/'' @ processed a
          else pub @ ''/assets/'' @ processed a
      | None \<Rightarrow>
          if type_f a = ''application/xml'' then pub @ ''/'' @ processed a
          else pub @ ''/assets/'' @ processed a)"

lemma length_blit [simp]: "length (blit buf n xs) = length buf"
  by (induction xs arbitrary: buf n) simp_all

lemma blit_snoc: "(blit buf n xs)[n + length xs := c] = blit buf n (xs @ [c])"
proof (induction xs arbitrary: buf n)
  case Nil
  then show ?case by simp
next
  case (Cons x xs)
  show ?case using Cons.IH [of "buf[n := x]" "Suc n"] by simp
qed

lemma nth_blit_below: "i < n \<Longrightarrow> blit buf n xs ! i = buf ! i"
  by (induction xs arbitrary: buf n) simp_all

lemma take_blit: "n + length xs \<le> length buf \<Longrightarrow> take (n + length xs) (blit buf n xs) = take n buf @ xs"
proof (induction xs arbitrary: buf n)
  case Nil
  then show ?case by simp
next
  case (Cons x xs)
  have "take (Suc n + length xs) (blit (buf[n := x]) (Suc n) xs) = take (Suc n) (buf[n := x]) @ xs"
    using Cons.prems by (intro Cons.IH) simp
  moreover have "take (Suc n) (buf[n := x]) = take n buf @ [x]"
    using Cons.prems by (simp add: take_Suc_conv_app_nth)
  ultimately show ?case by simp
qed

lemma processBytes_Nil [simp]: "processBytes r [] = r"
  by (simp add: processBytes_def)

lemma processBytes_Cons [simp]: "processBytes r (x # xs) = processBytes (process_byte r x) xs"
  by (simp add: processBytes_def)

lemma processBytes_append: "processBytes r (xs @ ys) = processBytes (processBytes r xs) ys"
  by (simp add: processBytes_def)

lemma foldl_processBytes: "foldl processBytes r chunks = processBytes r (concat chunks)"
  by (induction chunks arbitrary: r) (simp_all add: processBytes_append)

lemma payload_step_pending:
  assumes "state r = READING_PAYLOAD" "bufferIndex r + 1 < 4 + expectedLength r + 1"
  shows "process_byte r x = store_byte r x"
  using assms by (simp add: process_byte_def handleReadingPayload_def store_byte_def Let_def)

lemma payload_pending:
  "state r = READING_PAYLOAD \<Longrightarrow> bufferIndex r + length xs < 4 + expectedLength r + 1 \<Longrightarrow>
   processBytes r xs =
     r\<lparr> buffer := blit (buffer r) (bufferIndex r) xs, bufferIndex := bufferIndex r + length xs \<rparr>"
proof (induction xs arbitrary: r)
  case Nil
  then show ?case by simp
next
  case (Cons x xs)
  let ?r = "store_byte r x"
  have step: "process_byte r x = ?r"
    using Cons.prems by (intro payload_step_pending) simp_all
  have "processBytes ?r xs =
     ?r\<lparr> buffer := blit (buffer ?r) (bufferIndex ?r) xs, bufferIndex := bufferIndex ?r + length xs \<rparr>"
    using Cons.prems by (intro Cons.IH) (simp_all add: store_byte_def)
  then show ?case
    by (simp add: step) (simp add: store_byte_def)
qed

lemma payload_complete:
  assumes "state r = READING_PAYLOAD" "bufferIndex r + length xs = 4 + expectedLength r"
  shows "processBytes r (xs @ [c]) =
     resetState (processPacket
       (r\<lparr> buffer := blit (buffer r) (bufferIndex r) (xs @ [c]),
           bufferIndex := bufferIndex r + length xs + 1 \<rparr>))"
proof -
  let ?r = "r\<lparr> buffer := blit (buffer r) (bufferIndex r) xs, bufferIndex := bufferIndex r + length xs \<rparr>"
  have "processBytes r xs = ?r"
    using assms by (intro payload_pending) simp_all
  then show ?thesis
    using assms blit_snoc [of "buffer r" "bufferIndex r" xs c]
    by (simp add: processBytes_append process_byte_def handleReadingPayload_def store_byte_def Let_def)
qed

lemma byte_lt: "unat (w :: 8 word) < 256"
  using unsigned_less [of w, where ?'a = nat] by simp

lemma byte_eq_170: "unat (w :: 8 word) = 170 \<longleftrightarrow> w = 0xAA"
  by (simp add: word_unat_eq_iff)

lemma byte_eq_85: "unat (w :: 8 word) = 85 \<longleftrightarrow> w = 0x55"
  by (simp add: word_unat_eq_iff)

lemma sync_nat: "b < 256 \<Longrightarrow> a * 256 + b = (43605::nat) \<longleftrightarrow> a = 170 \<and> b = 85"
proof
  assume b: "b < 256" and eq: "a * 256 + b = 43605"
  have "(a * 256 + b) div 256 = a" "(a * 256 + b) mod 256 = b"
    using b by simp_all
  with eq show "a = 170 \<and> b = 85" by simp
qed simp

lemma getUint16_sync:
  "getUint16 b 0 = SYNC_WORD \<longleftrightarrow> b ! 0 = 0xAA \<and> b ! 1 = 0x55"
  using sync_nat [OF byte_lt [of "b ! 1"], of "unat (b ! 0)"]
  by (simp add: getUint16_def SYNC_WORD_def byte_eq_170 byte_eq_85)

lemma syncing_first:
  assumes "state r = SYNCING" "bufferIndex r = 0"
  shows "process_byte r x = r\<lparr> buffer := (buffer r)[0 := x], bufferIndex := 1 \<rparr>"
  using assms by (simp add: process_byte_def handleSyncing_def store_byte_def Let_def)

lemma syncing_nomatch:
  assumes "state r = SYNCING" "bufferIndex r = 1" "2 \<le> length (buffer r)"
    "\<not> (buffer r ! 0 = 0xAA \<and> x = 0x55)"
  shows "process_byte r x = r\<lparr> buffer := (buffer r)[1 := x, 0 := x], bufferIndex := 1 \<rparr>"
  using assms
  by (auto simp add: process_byte_def handleSyncing_def store_byte_def Let_def getUint16_sync)

lemma syncing_match:
  assumes "state r = SYNCING" "bufferIndex r = 1" "2 \<le> length (buffer r)"
    "buffer r ! 0 = 0xAA"
  shows "process_byte r 0x55 = r\<lparr> buffer := (buffer r)[1 := 0x55], bufferIndex := 2, state := READING_HEADER \<rparr>"
  using assms
  by (simp add: process_byte_def handleSyncing_def store_byte_def Let_def getUint16_sync)

lemma has_sync_Cons: "\<not> has_sync (p # x # xs) \<Longrightarrow> \<not> (p = 0xAA \<and> x = 0x55) \<and> \<not> has_sync (x # xs)"
  by simp

lemma syncing_noise:
  "state r = SYNCING \<Longrightarrow> bufferIndex r = 1 \<Longrightarrow> 2 \<le> length (buffer r) \<Longrightarrow>
   \<not> has_sync (buffer r ! 0 # xs) \<Longrightarrow>
   \<exists>buf. processBytes r xs = r\<lparr> buffer := buf, bufferIndex := 1 \<rparr> \<and>
         length buf = length (buffer r) \<and> buf ! 0 = last (buffer r ! 0 # xs)"
proof (induction xs arbitrary: r)
  case Nil
  have "r = r\<lparr> buffer := buffer r, bufferIndex := 1 \<rparr>" using Nil by simp
  then show ?case by (intro exI [of _ "buffer r"]) simp
next
  case (Cons x xs)
  let ?r = "r\<lparr> buffer := (buffer r)[1 := x, 0 := x], bufferIndex := 1 \<rparr>"
  from Cons.prems(4) have nm: "\<not> (buffer r ! 0 = 0xAA \<and> x = 0x55)" and ns: "\<not> has_sync (x # xs)"
    by simp_all
  have step: "process_byte r x = ?r"
    using Cons.prems nm by (intro syncing_nomatch) simp_all
  have "buffer r \<noteq> []" using Cons.prems(3) by auto
  then have b0: "buffer ?r ! 0 = x" by simp
  obtain buf where buf: "processBytes ?r xs = ?r\<lparr> buffer := buf, bufferIndex := 1 \<rparr>"
      "length buf = length (buffer ?r)" "buf ! 0 = last (buffer ?r ! 0 # xs)"
    using Cons.IH [of ?r] Cons.prems ns b0 by auto
  show ?case
    using buf b0 by (intro exI [of _ buf]) (simp add: step)
qed

lemma header_recv:
  assumes "state r = SYNCING" "bufferIndex r \<le> 1" "4 \<le> length (buffer r)"
  shows "\<exists>buf. processBytes r [0xAA, 0x55, len, cmd] =
            r\<lparr> state := READING_PAYLOAD, buffer := buf, bufferIndex := 4, expectedLength := unat len \<rparr> \<and>
          length buf = length (buffer r) \<and>
          buf ! 0 = 0xAA \<and> buf ! 1 = 0x55 \<and> buf ! 2 = len \<and> buf ! 3 = cmd"
proof -
  define b1 where "b1 = (if bufferIndex r = 0 then (buffer r)[0 := 0xAA] else (buffer r)[1 := 0xAA, 0 := 0xAA])"
  let ?r1 = "r\<lparr> buffer := b1, bufferIndex := 1 \<rparr>"
  have len1: "length b1 = length (buffer r)" by (simp add: b1_def)
  have ne: "buffer r \<noteq> []" using assms(3) by auto
  have b10: "b1 ! 0 = 0xAA" using ne by (simp add: b1_def)
  have s1: "process_byte r 0xAA = ?r1"
  proof (cases "bufferIndex r = 0")
    case True
    then show ?thesis using assms by (simp add: syncing_first b1_def)
  next
    case False
    then have i1: "bufferIndex r = 1" using assms(2) by simp
    have "process_byte r 0xAA = r\<lparr> buffer := (buffer r)[1 := 0xAA, 0 := 0xAA], bufferIndex := 1 \<rparr>"
      using assms i1 by (intro syncing_nomatch) simp_all
    then show ?thesis using False by (simp add: b1_def)
  qed
  let ?r2 = "?r1\<lparr> buffer := b1[1 := 0x55], bufferIndex := 2, state := READING_HEADER \<rparr>"
  have s2: "process_byte ?r1 0x55 = ?r2"
    using assms len1 b10 syncing_match [of ?r1] by simp
  let ?buf = "b1[1 := 0x55, 2 := len, 3 := cmd]"
  have s3: "process_byte (process_byte ?r2 len) cmd =
              r\<lparr> state := READING_PAYLOAD, buffer := ?buf, bufferIndex := 4, expectedLength := unat len \<rparr>"
    using assms len1
    by (simp add: process_byte_def handleReadingHeader_def store_byte_def Let_def)
  have "processBytes r [0xAA, 0x55, len, cmd] =
          process_byte (process_byte (process_byte (process_byte r 0xAA) 0x55) len) cmd"
    by (simp only: processBytes_Cons processBytes_Nil)
  also have "\<dots> =
          r\<lparr> state := READING_PAYLOAD, buffer := ?buf, bufferIndex := 4, expectedLength := unat len \<rparr>"
    by (simp only: s1 s2 s3)
  finally have "processBytes r [0xAA, 0x55, len, cmd] =
          r\<lparr> state := READING_PAYLOAD, buffer := ?buf, bufferIndex := 4, expectedLength := unat len \<rparr>" .
  moreover have "length ?buf = length (buffer r)" by (simp add: len1)
  moreover have "?buf ! 0 = 0xAA \<and> ?buf ! 1 = 0x55 \<and> ?buf ! 2 = len \<and> ?buf ! 3 = cmd"
    using b10 len1 assms(3) by simp
  ultimately show ?thesis by blast
qed

lemma take4_nth: "4 \<le> length b \<Longrightarrow> take 4 b = [b ! 0, b ! 1, b ! 2, b ! 3]"
  by (simp add: list_eq_iff_nth_eq nth_Cons' numeral_eq_Suc less_Suc_eq)

lemma parsePacket_frame:
  assumes "length pl = unat len"
  shows "parsePacket (frame len cmd pl chk) =
           Inr \<lparr> sync = SYNC_WORD, length_f = len, command = cmd, payload = pl, checksum = chk \<rparr>"
proof -
  let ?f = "frame len cmd pl chk"
  have n: "?f ! 0 = 0xAA" "?f ! 1 = 0x55" "?f ! 2 = len" "?f ! 3 = cmd"
    by (simp_all add: frame_def numeral_eq_Suc)
  have l: "length ?f = 5 + unat len" using assms by (simp add: frame_def)
  have s: "getUint16 ?f 0 = SYNC_WORD" using n by (simp add: getUint16_sync)
  have p: "slice ?f 4 (4 + unat len) = pl"
    using assms by (simp add: slice_def frame_def)
  have "?f ! (4 + length pl) = chk"
    by (simp add: frame_def nth_append numeral_eq_Suc)
  then have c: "?f ! (4 + unat len) = chk" using assms by simp
  show ?thesis
    unfolding parsePacket_def Let_def by (simp only: s n p c l) simp
qed

lemma parsePacket_overflow:
  assumes "length b = PACKET_MAX_SIZE" "b ! 0 = 0xAA" "b ! 1 = 0x55" "251 < unat (b ! 2)"
  shows "parsePacket b = Inl (IncompletePacket (4 + unat (b ! 2) + 1) PACKET_MAX_SIZE)"
proof -
  have s: "getUint16 b 0 = SYNC_WORD" using assms(2,3) by (simp add: getUint16_sync)
  show ?thesis
    unfolding parsePacket_def Let_def using assms(1,4) by (simp add: s PACKET_MAX_SIZE_def)
qed

lemma recv_frame:
  assumes "state r = SYNCING" "bufferIndex r \<le> 1" "length (buffer r) = PACKET_MAX_SIZE"
    "length pl = unat len"
  shows "\<exists>buf. processBytes r (frame len cmd pl chk) =
            r\<lparr> state := SYNCING, buffer := buf, bufferIndex := 0, expectedLength := 0,
               sink := sink r @ [frame_event len cmd pl chk] \<rparr> \<and>
          length buf = PACKET_MAX_SIZE"
proof -
  have "4 \<le> length (buffer r)" using assms(3) by (simp add: PACKET_MAX_SIZE_def)
  from header_recv [OF assms(1,2) this, of len cmd]
  obtain b4 where b4: "processBytes r [0xAA, 0x55, len, cmd] =
            r\<lparr> state := READING_PAYLOAD, buffer := b4, bufferIndex := 4, expectedLength := unat len \<rparr>"
     "length b4 = length (buffer r)" "b4 ! 0 = 0xAA" "b4 ! 1 = 0x55" "b4 ! 2 = len" "b4 ! 3 = cmd"
    by blast
  let ?r4 = "r\<lparr> state := READING_PAYLOAD, buffer := b4, bufferIndex := 4, expectedLength := unat len \<rparr>"
  let ?B = "blit b4 4 (pl @ [chk])"
  let ?r5 = "r\<lparr> state := READING_PAYLOAD, buffer := ?B, bufferIndex := 5 + unat len, expectedLength := unat len \<rparr>"
  have pc0: "processBytes ?r4 (pl @ [chk]) = resetState (processPacket
       (?r4\<lparr> buffer := blit (buffer ?r4) (bufferIndex ?r4) (pl @ [chk]),
           bufferIndex := bufferIndex ?r4 + length pl + 1 \<rparr>))"
    by (rule payload_complete) (simp_all add: assms(4))
  have r5: "?r4\<lparr> buffer := blit (buffer ?r4) (bufferIndex ?r4) (pl @ [chk]),
           bufferIndex := bufferIndex ?r4 + length pl + 1 \<rparr> = ?r5"
    by (simp add: assms(4))
  have pc: "processBytes ?r4 (pl @ [chk]) = resetState (processPacket ?r5)"
    by (simp only: pc0 r5)
  have fr: "frame len cmd pl chk = [0xAA, 0x55, len, cmd] @ (pl @ [chk])"
    by (simp add: frame_def)
  have "processBytes r (frame len cmd pl chk) =
          processBytes (processBytes r [0xAA, 0x55, len, cmd]) (pl @ [chk])"
    unfolding fr by (rule processBytes_append)
  then have all: "processBytes r (frame len cmd pl chk) = resetState (processPacket ?r5)"
    by (simp only: b4(1) pc)
  have lB: "length ?B = PACKET_MAX_SIZE" using b4(2) assms(3) by simp
  have nB: "?B ! 0 = 0xAA" "?B ! 1 = 0x55" "?B ! 2 = len" "?B ! 3 = cmd"
    using b4 by (simp_all add: nth_blit_below)
  have pd: "parsePacket (slice ?B 0 (5 + unat len)) =
        (case frame_event len cmd pl chk of OnPacket p \<Rightarrow> Inr p | OnError e \<Rightarrow> Inl e)"
  proof (cases "4 + unat len + 1 \<le> PACKET_MAX_SIZE")
    case True
    have "take (4 + length (pl @ [chk])) ?B = take 4 b4 @ (pl @ [chk])"
      using True assms(3,4) b4(2) by (intro take_blit) simp
    moreover have "take 4 b4 = [0xAA, 0x55, len, cmd]"
      using b4 assms(3) by (simp add: take4_nth PACKET_MAX_SIZE_def)
    ultimately have "slice ?B 0 (5 + unat len) = frame len cmd pl chk"
      using assms(4) by (simp add: slice_def frame_def)
    then show ?thesis
      using True assms(4) by (simp add: parsePacket_frame frame_event_def)
  next
    case False
    then have big: "251 < unat (?B ! 2)" by (simp add: nB PACKET_MAX_SIZE_def)
    have "slice ?B 0 (5 + unat len) = ?B"
      using False lB by (simp add: slice_def PACKET_MAX_SIZE_def)
    then show ?thesis
      using False parsePacket_overflow [OF lB nB(1,2) big] by (simp add: frame_event_def nB)
  qed
  have "resetState (processPacket ?r5) =
          r\<lparr> state := SYNCING, buffer := ?B, bufferIndex := 0, expectedLength := 0,
               sink := sink r @ [frame_event len cmd pl chk] \<rparr>"
    using assms(4) pd
    by (cases "frame_event len cmd pl chk") (simp_all add: resetState_def processPacket_def Let_def)
  with all lB show ?thesis by (intro exI [of _ ?B]) simp
qed

lemma two_frames:
  assumes "state r = SYNCING" "bufferIndex r \<le> 1" "length (buffer r) = PACKET_MAX_SIZE"
    "length pl1 = unat len1" "length pl2 = unat len2"
  shows "sink (processBytes r (frame len1 cmd1 pl1 chk1 @ frame len2 cmd2 pl2 chk2)) =
           sink r @ [frame_event len1 cmd1 pl1 chk1, frame_event len2 cmd2 pl2 chk2]"
proof -
  obtain buf where 1: "processBytes r (frame len1 cmd1 pl1 chk1) =
            r\<lparr> state := SYNCING, buffer := buf, bufferIndex := 0, expectedLength := 0,
               sink := sink r @ [frame_event len1 cmd1 pl1 chk1] \<rparr>" "length buf = PACKET_MAX_SIZE"
    using recv_frame [OF assms(1,2,3,4)] by blast
  let ?r1 = "r\<lparr> state := SYNCING, buffer := buf, bufferIndex := 0, expectedLength := 0,
               sink := sink r @ [frame_event len1 cmd1 pl1 chk1] \<rparr>"
  obtain buf2 where 2: "processBytes ?r1 (frame len2 cmd2 pl2 chk2) =
            ?r1\<lparr> state := SYNCING, buffer := buf2, bufferIndex := 0, expectedLength := 0,
               sink := sink ?r1 @ [frame_event len2 cmd2 pl2 chk2] \<rparr>"
    using recv_frame [of ?r1 pl2 len2 cmd2 chk2] 1(2) assms(5) by auto
  show ?thesis
    by (simp add: processBytes_append 1(1) 2)
qed

lemma started_ready:
  "state started = SYNCING" "bufferIndex started = 0" "length (buffer started) = PACKET_MAX_SIZE"
  "sink started = []"
  by (simp_all add: started_def new_SerialReader_def)

lemma sink_start:
  "sink (start new_SerialReader chunks) = sink (processBytes started (concat chunks))"
  by (simp add: start_def foldl_processBytes started_def new_SerialReader_def)

lemma valid_frameD:
  assumes "valid_frame f"
  obtains len cmd pl chk where "f = frame len cmd pl chk" "length pl = unat len"
    "4 + unat len + 1 \<le> PACKET_MAX_SIZE" "chk = calculateChecksum (cmd # pl)"
    "packet_of f = \<lparr> sync = SYNC_WORD, length_f = len, command = cmd, payload = pl, checksum = chk \<rparr>"
proof -
  let ?pl = "slice f 4 (length f - 1)"
  let ?chk = "calculateChecksum (slice f 3 (length f - 1))"
  from assms have f: "f = frame (f ! 2) (f ! 3) ?pl ?chk" and l: "unat (f ! 2) = length f - 5"
    and l5: "5 \<le> length f" and lm: "length f \<le> PACKET_MAX_SIZE"
    by (simp_all add: valid_frame_def)
  have lp: "length ?pl = unat (f ! 2)" using l l5 by (simp add: slice_def)
  have "f \<noteq> []" using l5 by auto
  then have "f ! (length f - 1) = last f" by (simp add: last_conv_nth)
  also have "last f = ?chk" by (subst f) (simp add: frame_def)
  finally have c: "f ! (length f - 1) = ?chk" .
  have d: "drop 3 f = f ! 3 # drop 4 f"
    using l5 Cons_nth_drop_Suc [of 3 f] by simp
  have "length f - 1 - 3 = Suc (length f - 1 - 4)" using l5 by simp
  then have "slice f 3 (length f - 1) = f ! 3 # ?pl"
    unfolding slice_def d by simp
  then have ck: "?chk = calculateChecksum (f ! 3 # ?pl)" by simp
  show ?thesis
    using f lp l l5 lm ck c by (intro that [of "f ! 2" "f ! 3" ?pl ?chk]) (simp_all add: packet_of_def)
qed

text \<open>
  Claim C2. \<open>parsePacket\<close> checks in a fixed order: it fails with 'Packet too small'
  exactly when the buffer has fewer than 5 bytes; otherwise with 'Invalid sync word'
  exactly when the first two bytes, read big-endian, are not \<open>0xAA55\<close>; otherwise with
  'Incomplete packet' exactly when the buffer is shorter than \<open>4 + length + 1\<close>; otherwise
  it returns the packet with command = byte 3, payload = bytes \<open>4 ..< 4 + length\<close> and
  checksum = byte \<open>4 + length\<close>. The checksum is not compared with the XOR-fold, so
  there are buffers that decode although their checksum byte is wrong.
\<close>

theorem parsePacket_decode_order:
  "((\<exists>n. parsePacket b = Inl (PacketTooSmall n)) \<longleftrightarrow> length b < 5) \<and>
   (5 \<le> length b \<longrightarrow>
      ((\<exists>s. parsePacket b = Inl (InvalidSyncWord s)) \<longleftrightarrow>
         unat (b ! 0) * 256 + unat (b ! 1) \<noteq> 0xAA55)) \<and>
   (5 \<le> length b \<and> unat (b ! 0) * 256 + unat (b ! 1) = 0xAA55 \<longrightarrow>
      ((\<exists>e g. parsePacket b = Inl (IncompletePacket e g)) \<longleftrightarrow>
         length b < 4 + unat (b ! 2) + 1)) \<and>
   (5 \<le> length b \<and> unat (b ! 0) * 256 + unat (b ! 1) = 0xAA55 \<and>
    4 + unat (b ! 2) + 1 \<le> length b \<longrightarrow>
      parsePacket b = Inr \<lparr> sync = 0xAA55, length_f = b ! 2, command = b ! 3,
                              payload = take (unat (b ! 2)) (drop 4 b),
                              checksum = b ! (4 + unat (b ! 2)) \<rparr>) \<and>
   (\<exists>b' p. parsePacket b' = Inr p \<and> checksum p \<noteq> calculateChecksum (command p # payload p))"
proof -
  have ex: "parsePacket [0xAA, 0x55, 0, 1, 0xFF] =
              Inr \<lparr> sync = SYNC_WORD, length_f = 0, command = 1, payload = [], checksum = 0xFF \<rparr>"
    using parsePacket_frame [of "[]" 0 1 "0xFF"] by (simp add: frame_def)
  have "\<exists>b' p. parsePacket b' = Inr p \<and> checksum p \<noteq> calculateChecksum (command p # payload p)"
    by (rule exI [of _ "[0xAA, 0x55, 0, 1, 0xFF]"], subst ex) (simp add: calculateChecksum_def)
  then show ?thesis
    by (simp add: parsePacket_def Let_def getUint16_def SYNC_WORD_def slice_def)
qed

theorem parsePacket_decode_order_witness:
  "parsePacket [0xAA, 0x55, 1, 2, 7, 5] =
     Inr \<lparr> sync = 0xAA55, length_f = 1, command = 2, payload = [7], checksum = 5 \<rparr>"
  using parsePacket_decode_order [of "[0xAA, 0x55, 1, 2, 7, 5]"] by simp

text \<open>
  Claim C5. Two valid frames back to back, cut into chunks in any way whatever
  (also inside the sync word or the payload), make the reader deliver exactly two
  packets, the first frame's and then the second frame's, and nothing else: the same
  as when the whole stream comes in one chunk.
\<close>

theorem two_frames_any_chunking:
  assumes "valid_frame f1" "valid_frame f2" "concat chunks = f1 @ f2"
  shows "sink (start new_SerialReader chunks) = [OnPacket (packet_of f1), OnPacket (packet_of f2)] \<and>
         sink (start new_SerialReader chunks) = sink (start new_SerialReader [f1 @ f2])"
proof -
  from assms(1) obtain len1 cmd1 pl1 chk1 where 1: "f1 = frame len1 cmd1 pl1 chk1" "length pl1 = unat len1"
    "4 + unat len1 + 1 \<le> PACKET_MAX_SIZE"
    "packet_of f1 = \<lparr> sync = SYNC_WORD, length_f = len1, command = cmd1, payload = pl1, checksum = chk1 \<rparr>"
    by (rule valid_frameD)
  from assms(2) obtain len2 cmd2 pl2 chk2 where 2: "f2 = frame len2 cmd2 pl2 chk2" "length pl2 = unat len2"
    "4 + unat len2 + 1 \<le> PACKET_MAX_SIZE"
    "packet_of f2 = \<lparr> sync = SYNC_WORD, length_f = len2, command = cmd2, payload = pl2, checksum = chk2 \<rparr>"
    by (rule valid_frameD)
  have "sink (processBytes started (f1 @ f2)) =
          sink started @ [frame_event len1 cmd1 pl1 chk1, frame_event len2 cmd2 pl2 chk2]"
    unfolding 1(1) 2(1) using 1(2) 2(2) by (intro two_frames) (simp_all add: started_ready)
  then show ?thesis
    using 1(3,4) 2(3,4) by (simp add: sink_start assms(3) started_ready frame_event_def)
qed

theorem two_frames_any_chunking_witness:
  "valid_frame [0xAA, 0x55, 0, 1, 1] \<and> valid_frame [0xAA, 0x55, 1, 2, 7, 5] \<and>
   concat [[0xAA], [0x55, 0, 1], [1, 0xAA, 0x55, 1], [2, 7, 5]] =
     [0xAA, 0x55, 0, 1, 1] @ [0xAA, 0x55, 1, 2, 7, 5] \<and>
   sink (start new_SerialReader [[0xAA], [0x55, 0, 1], [1, 0xAA, 0x55, 1], [2, 7, 5]]) =
     [OnPacket \<lparr> sync = 0xAA55, length_f = 0, command = 1, payload = [], checksum = 1 \<rparr>,
      OnPacket \<lparr> sync = 0xAA55, length_f = 1, command = 2, payload = [7], checksum = 5 \<rparr>]"
proof -
  have v1: "valid_frame [0xAA, 0x55, 0, 1, 1]"
    by (simp add: valid_frame_def frame_def slice_def calculateChecksum_def PACKET_MAX_SIZE_def)
  have v2: "valid_frame [0xAA, 0x55, 1, 2, 7, 5]"
    by (simp add: valid_frame_def frame_def slice_def calculateChecksum_def PACKET_MAX_SIZE_def)
  have c: "concat [[0xAA], [0x55, 0, 1], [1, 0xAA, 0x55, 1], [2, 7, 5]] =
     [0xAA, 0x55, 0, 1, 1] @ [0xAA, 0x55, 1, 2, 7, 5 :: byte]"
    by simp
  show ?thesis
    using v1 v2 c two_frames_any_chunking [OF v1 v2 c]
    by (simp add: packet_of_def slice_def SYNC_WORD_def)
qed

lemma noise_then_ready:
  assumes "state r = SYNCING" "bufferIndex r = 0" "length (buffer r) = PACKET_MAX_SIZE"
    "\<not> has_sync noise"
  shows "\<exists>buf i. processBytes r noise = r\<lparr> buffer := buf, bufferIndex := i \<rparr> \<and>
            i \<le> 1 \<and> length buf = PACKET_MAX_SIZE"
proof (cases noise)
  case Nil
  have "r = r\<lparr> buffer := buffer r, bufferIndex := 0 \<rparr>" using assms(2) by simp
  then show ?thesis using Nil assms(3) by (intro exI [of _ "buffer r"] exI [of _ 0]) simp
next
  case (Cons x xs)
  let ?r1 = "r\<lparr> buffer := (buffer r)[0 := x], bufferIndex := 1 \<rparr>"
  have s1: "process_byte r x = ?r1" using assms(1,2) by (rule syncing_first)
  have ne: "buffer r \<noteq> []" using assms(3) by (auto simp: PACKET_MAX_SIZE_def)
  have "\<exists>buf. processBytes ?r1 xs = ?r1\<lparr> buffer := buf, bufferIndex := 1 \<rparr> \<and>
         length buf = length (buffer ?r1) \<and> buf ! 0 = last (buffer ?r1 ! 0 # xs)"
    using assms ne Cons by (intro syncing_noise) (simp_all add: PACKET_MAX_SIZE_def)
  then obtain buf where "processBytes ?r1 xs = ?r1\<lparr> buffer := buf, bufferIndex := 1 \<rparr>"
    "length buf = PACKET_MAX_SIZE" using assms(3) by auto
  then show ?thesis
    using Cons s1 by (intro exI [of _ buf] exI [of _ 1]) simp
qed

lemma single_frame_after_noise:
  assumes "\<not> has_sync noise" "valid_frame f" "concat chunks = noise @ f"
  shows "sink (start new_SerialReader chunks) = [OnPacket (packet_of f)]"
proof -
  from assms(2) obtain len cmd pl chk where 1: "f = frame len cmd pl chk" "length pl = unat len"
    "4 + unat len + 1 \<le> PACKET_MAX_SIZE"
    "packet_of f = \<lparr> sync = SYNC_WORD, length_f = len, command = cmd, payload = pl, checksum = chk \<rparr>"
    by (rule valid_frameD)
  obtain buf i where n: "processBytes started noise = started\<lparr> buffer := buf, bufferIndex := i \<rparr>"
    "i \<le> 1" "length buf = PACKET_MAX_SIZE"
    using noise_then_ready [OF started_ready(1,2,3) assms(1)] by blast
  let ?r = "started\<lparr> buffer := buf, bufferIndex := i \<rparr>"
  obtain buf' where "processBytes ?r (frame len cmd pl chk) =
            ?r\<lparr> state := SYNCING, buffer := buf', bufferIndex := 0, expectedLength := 0,
               sink := sink ?r @ [frame_event len cmd pl chk] \<rparr>"
    using recv_frame [of ?r pl len cmd chk] n(2,3) 1(2) started_ready(1) by auto
  then have "sink (processBytes started (noise @ f)) = [frame_event len cmd pl chk]"
    by (simp add: processBytes_append n(1) 1(1) started_ready)
  then show ?thesis
    using 1(3,4) by (simp add: sink_start assms(3) frame_event_def)
qed

lemma parsePacket_exact:
  assumes "parsePacket F = Inr p" "length F = 5 + unat (F ! 2)"
  shows "F = frame (length_f p) (command p) (payload p) (checksum p) \<and>
         length (payload p) = unat (length_f p) \<and> sync p = SYNC_WORD"
proof -
  from assms(1) have l5: "5 \<le> length F" and s: "getUint16 F 0 = SYNC_WORD"
    and p: "p = \<lparr> sync = SYNC_WORD, length_f = F ! 2, command = F ! 3,
                  payload = slice F 4 (4 + unat (F ! 2)), checksum = F ! (4 + unat (F ! 2)) \<rparr>"
    by (auto simp: parsePacket_def Let_def split: if_splits)
  have n: "F ! 0 = 0xAA" "F ! 1 = 0x55" using s by (simp_all add: getUint16_sync)
  have t4: "take 4 F = [0xAA, 0x55, F ! 2, F ! 3]"
    using l5 n by (simp add: take4_nth)
  have pl: "slice F 4 (4 + unat (F ! 2)) = take (unat (F ! 2)) (drop 4 F)"
    by (simp add: slice_def)
  have ld: "length (drop 4 F) = Suc (unat (F ! 2))" using assms(2) by simp
  then have "drop 4 F \<noteq> []" by auto
  then have "drop 4 F = butlast (drop 4 F) @ [last (drop 4 F)]"
    by (rule append_butlast_last_id [symmetric])
  moreover have "butlast (drop 4 F) = take (unat (F ! 2)) (drop 4 F)"
    using ld by (simp add: butlast_conv_take)
  moreover have "last (drop 4 F) = F ! (4 + unat (F ! 2))"
    using ld \<open>drop 4 F \<noteq> []\<close> assms(2) by (simp add: last_conv_nth)
  ultimately have d4: "drop 4 F = take (unat (F ! 2)) (drop 4 F) @ [F ! (4 + unat (F ! 2))]"
    by simp
  have "F = take 4 F @ drop 4 F" by simp
  then have "F = [0xAA, 0x55, F ! 2, F ! 3] @ take (unat (F ! 2)) (drop 4 F) @ [F ! (4 + unat (F ! 2))]"
    using t4 d4 by simp
  then have "F = frame (length_f p) (command p) (payload p) (checksum p)"
    by (simp add: p pl frame_def)
  moreover have "length (payload p) = unat (length_f p)"
    using ld by (simp add: p pl)
  ultimately show ?thesis by (simp add: p)
qed

lemma packets_snoc [simp]:
  "packets (r\<lparr> sink := sink r @ [OnPacket p] \<rparr>) = packets r @ [p]"
  "packets (r\<lparr> sink := sink r @ [OnError e] \<rparr>) = packets r"
  by (simp_all add: packets_def)

lemma packets_upd [simp]:
  "packets (r\<lparr> state := s \<rparr>) = packets r"
  "packets (r\<lparr> buffer := b \<rparr>) = packets r"
  "packets (r\<lparr> bufferIndex := i \<rparr>) = packets r"
  "packets (r\<lparr> expectedLength := e \<rparr>) = packets r"
  "packets (r\<lparr> isReading := q \<rparr>) = packets r"
  by (simp_all add: packets_def)

lemma framed_in_snoc: "framed_in xs p \<Longrightarrow> framed_in (xs @ [x]) p"
  by (auto simp: framed_in_def sublist_append)

lemma packets_ok_snoc: "packets_ok xs r \<Longrightarrow> packets_ok (xs @ [x]) r"
  by (simp add: packets_ok_def framed_in_snoc)

lemma take_store: "i < length b \<Longrightarrow> take (Suc i) (b[i := x]) = take i b @ [x]"
  by (simp add: take_Suc_conv_app_nth)

lemma take1_nth: "b \<noteq> [] \<Longrightarrow> take (Suc 0) b = [b ! 0]"
  by (cases b) simp_all

lemma MAX_pos: "length b = PACKET_MAX_SIZE \<Longrightarrow> b \<noteq> [] \<and> 2 \<le> length b \<and> 4 \<le> length b"
  by (auto simp: PACKET_MAX_SIZE_def)

lemma step_syncing:
  assumes st: "state r = SYNCING" and sh: "shape_ok r" and tl: "tail_ok xs r" and pk: "packets_ok xs r"
  shows "shape_ok (process_byte r x) \<and> tail_ok (xs @ [x]) (process_byte r x) \<and>
         packets_ok (xs @ [x]) (process_byte r x)"
proof -
  from sh st have len: "length (buffer r) = PACKET_MAX_SIZE" and i: "bufferIndex r \<le> 1"
    by (simp_all add: shape_ok_def)
  note ne = MAX_pos [OF len]
  from pk have pk': "packets_ok (xs @ [x]) r" by (rule packets_ok_snoc)
  show ?thesis
  proof (cases "bufferIndex r = 0")
    case True
    have s: "process_byte r x = r\<lparr> buffer := (buffer r)[0 := x], bufferIndex := 1 \<rparr>"
      using st True by (rule syncing_first)
    show ?thesis
      unfolding s using st len ne pk'
      by (simp add: shape_ok_def tail_ok_def packets_ok_def take1_nth PACKET_MAX_SIZE_def)
  next
    case False
    then have i1: "bufferIndex r = 1" using i by simp
    from tl i1 ne have t: "suffix [buffer r ! 0] xs"
      by (simp add: tail_ok_def PACKET_MAX_SIZE_def take1_nth)
    show ?thesis
    proof (cases "buffer r ! 0 = 0xAA \<and> x = 0x55")
      case True
      then have x: "x = 0x55" and b0: "buffer r ! 0 = 0xAA" by simp_all
      have s: "process_byte r 0x55 =
          r\<lparr> buffer := (buffer r)[1 := 0x55], bufferIndex := 2, state := READING_HEADER \<rparr>"
        using st i1 ne b0 by (intro syncing_match) simp_all
      have "take 2 ((buffer r)[1 := 0x55]) = [0xAA, 0x55]"
        using ne b0 take_store [of 1 "buffer r" "0x55"] by (simp add: take1_nth numeral_2_eq_2)
      moreover have "suffix [0xAA, 0x55] (xs @ [0x55])"
        using t b0 by (simp add: suffix_def)
      ultimately show ?thesis
        unfolding x s using len ne b0 pk' x
        by (simp add: shape_ok_def tail_ok_def packets_ok_def PACKET_MAX_SIZE_def)
    next
      case nm: False
      have s: "process_byte r x = r\<lparr> buffer := (buffer r)[1 := x, 0 := x], bufferIndex := 1 \<rparr>"
        using st i1 ne nm by (intro syncing_nomatch) simp_all
      show ?thesis
        unfolding s using st len ne pk'
        by (simp add: shape_ok_def tail_ok_def packets_ok_def take1_nth PACKET_MAX_SIZE_def)
    qed
  qed
qed

lemma step_header:
  assumes st: "state r = READING_HEADER" and sh: "shape_ok r" and tl: "tail_ok xs r" and pk: "packets_ok xs r"
  shows "shape_ok (process_byte r x) \<and> tail_ok (xs @ [x]) (process_byte r x) \<and>
         packets_ok (xs @ [x]) (process_byte r x)"
proof -
  from sh st have len: "length (buffer r) = PACKET_MAX_SIZE"
    and i: "bufferIndex r = 2 \<or> bufferIndex r = 3"
    and b: "buffer r ! 0 = 0xAA" "buffer r ! 1 = 0x55"
    by (simp_all add: shape_ok_def)
  from pk have pk': "packets_ok (xs @ [x]) r" by (rule packets_ok_snoc)
  have il: "bufferIndex r < length (buffer r)" using i len by (auto simp: PACKET_MAX_SIZE_def)
  from tl il len have t: "suffix (take (bufferIndex r) (buffer r)) xs"
    by (simp add: tail_ok_def)
  have t': "suffix (take (Suc (bufferIndex r)) ((buffer r)[bufferIndex r := x])) (xs @ [x])"
    using t il by (simp add: take_store)
  from i show ?thesis
  proof
    assume i2: "bufferIndex r = 2"
    have s: "process_byte r x = r\<lparr> buffer := (buffer r)[2 := x], bufferIndex := 3 \<rparr>"
      using st i2 by (simp add: process_byte_def handleReadingHeader_def store_byte_def Let_def)
    have "suffix (take 3 ((buffer r)[2 := x])) (xs @ [x])"
      using t' i2 by (simp add: numeral_3_eq_3 numeral_2_eq_2)
    then show ?thesis
      unfolding s using st len b pk'
      by (simp add: shape_ok_def tail_ok_def packets_ok_def)
  next
    assume i3: "bufferIndex r = 3"
    have s: "process_byte r x = r\<lparr> buffer := (buffer r)[3 := x], bufferIndex := 4,
               expectedLength := unat (buffer r ! 2), state := READING_PAYLOAD \<rparr>"
      using st i3 by (simp add: process_byte_def handleReadingHeader_def store_byte_def Let_def)
    have "suffix (take 4 ((buffer r)[3 := x])) (xs @ [x])"
      using t' i3 by (simp add: numeral_3_eq_3 eval_nat_numeral)
    then show ?thesis
      unfolding s using st len b pk'
      by (simp add: shape_ok_def tail_ok_def packets_ok_def)
  qed
qed

lemma step_payload:
  assumes st: "state r = READING_PAYLOAD" and sh: "shape_ok r" and tl: "tail_ok xs r" and pk: "packets_ok xs r"
  shows "shape_ok (process_byte r x) \<and> tail_ok (xs @ [x]) (process_byte r x) \<and>
         packets_ok (xs @ [x]) (process_byte r x)"
proof -
  from sh st have len: "length (buffer r) = PACKET_MAX_SIZE"
    and i4: "4 \<le> bufferIndex r" and ie: "bufferIndex r < 5 + expectedLength r"
    and el: "expectedLength r = unat (buffer r ! 2)"
    and b: "buffer r ! 0 = 0xAA" "buffer r ! 1 = 0x55"
    by (simp_all add: shape_ok_def)
  from pk have pk': "packets_ok (xs @ [x]) r" by (rule packets_ok_snoc)
  let ?b = "(buffer r)[bufferIndex r := x]"
  let ?r1 = "r\<lparr> buffer := ?b, bufferIndex := Suc (bufferIndex r) \<rparr>"
  have nb: "?b ! 0 = 0xAA" "?b ! 1 = 0x55" "?b ! 2 = buffer r ! 2"
    using i4 b by simp_all
  have lb: "length ?b = PACKET_MAX_SIZE" using len by simp
  have t': "Suc (bufferIndex r) \<le> PACKET_MAX_SIZE \<Longrightarrow>
            suffix (take (Suc (bufferIndex r)) ?b) (xs @ [x])"
  proof -
    assume a: "Suc (bufferIndex r) \<le> PACKET_MAX_SIZE"
    then have il: "bufferIndex r < length (buffer r)" using len by simp
    with tl len have "suffix (take (bufferIndex r) (buffer r)) xs"
      by (simp add: tail_ok_def)
    then show ?thesis using il by (simp add: take_store)
  qed
  show ?thesis
  proof (cases "Suc (bufferIndex r) \<ge> 4 + expectedLength r + 1")
    case False
    have s: "process_byte r x = ?r1"
      using st False by (simp add: process_byte_def handleReadingPayload_def store_byte_def Let_def)
    show ?thesis
      unfolding s using st len i4 False el nb t' pk'
      by (simp add: shape_ok_def tail_ok_def packets_ok_def)
  next
    case True
    then have ix: "Suc (bufferIndex r) = 5 + expectedLength r" using ie by simp
    have s: "process_byte r x = resetState (processPacket ?r1)"
      using st True by (simp add: process_byte_def handleReadingPayload_def store_byte_def Let_def)
    let ?F = "slice ?b 0 (Suc (bufferIndex r))"
    have res: "resetState (processPacket ?r1) =
       r\<lparr> state := SYNCING, buffer := ?b, bufferIndex := 0, expectedLength := 0,
          sink := sink r @ [case parsePacket ?F of Inr p \<Rightarrow> OnPacket p | Inl e \<Rightarrow> OnError e] \<rparr>"
      by (cases "parsePacket ?F") (simp_all add: resetState_def processPacket_def Let_def)
    have good: "framed_in (xs @ [x]) p" if p: "parsePacket ?F = Inr p" for p
    proof (cases "Suc (bufferIndex r) \<le> PACKET_MAX_SIZE")
      case fit: True
      have F: "?F = take (Suc (bufferIndex r)) ?b" by (simp add: slice_def)
      have lF: "length ?F = Suc (bufferIndex r)" using fit lb by (simp add: F)
      have "?F ! 2 = ?b ! 2" using i4 by (simp add: F)
      then have "length ?F = 5 + unat (?F ! 2)" using lF ix el nb by simp
      from parsePacket_exact [OF p this]
      have "?F = frame (length_f p) (command p) (payload p) (checksum p)"
        "length (payload p) = unat (length_f p)" "sync p = SYNC_WORD" by simp_all
      moreover have "sublist ?F (xs @ [x])"
        using t' [OF fit] by (simp add: F suffix_imp_sublist)
      ultimately show ?thesis by (simp add: framed_in_def)
    next
      case over: False
      have F: "?F = ?b" using over lb by (simp add: slice_def)
      have "251 < unat (?b ! 2)" using over ix el nb by (simp add: PACKET_MAX_SIZE_def)
      from parsePacket_overflow [OF lb nb(1,2) this] p show ?thesis by (simp add: F)
    qed
    have pko: "packets_ok (xs @ [x]) (resetState (processPacket ?r1))"
      unfolding res using pk' good
      by (cases "parsePacket ?F") (auto simp add: packets_ok_def packets_def)
    show ?thesis
      unfolding s using pko unfolding res using lb
      by (simp add: shape_ok_def tail_ok_def)
  qed
qed

lemma step_inv:
  assumes "shape_ok r" "tail_ok xs r" "packets_ok xs r"
  shows "shape_ok (process_byte r x) \<and> tail_ok (xs @ [x]) (process_byte r x) \<and>
         packets_ok (xs @ [x]) (process_byte r x)"
proof (cases "state r")
  case IDLE
  with assms(1) show ?thesis by (simp add: shape_ok_def)
next
  case SYNCING
  then show ?thesis using assms by (rule step_syncing)
next
  case READING_HEADER
  then show ?thesis using assms by (rule step_header)
next
  case READING_PAYLOAD
  then show ?thesis using assms by (rule step_payload)
qed

lemma processBytes_snoc: "processBytes r (xs @ [x]) = process_byte (processBytes r xs) x"
  by (simp add: processBytes_append)

lemma reachable_inv:
  "shape_ok (processBytes started xs) \<and> tail_ok xs (processBytes started xs) \<and>
   packets_ok xs (processBytes started xs)"
proof (induction xs rule: rev_induct)
  case Nil
  show ?case
    by (simp add: shape_ok_def tail_ok_def packets_ok_def packets_def started_def new_SerialReader_def)
next
  case (snoc x xs)
  then show ?case
    unfolding processBytes_snoc by (intro step_inv) simp_all
qed

lemma blit_beyond: "length buf \<le> n \<Longrightarrow> blit buf n xs = buf"
  by (induction xs arbitrary: n) (simp_all add: list_update_beyond)

lemma blit_take: "blit buf n xs = blit buf n (take (length buf - n) xs)"
proof (induction xs arbitrary: buf n)
  case Nil
  show ?case by simp
next
  case (Cons x xs)
  show ?case
  proof (cases "n < length buf")
    case True
    then obtain k where k: "length buf - n = Suc k" by (metis Suc_diff_Suc)
    then have k': "length buf - Suc n = k" by simp
    show ?thesis using Cons.IH [of "buf[n := x]" "Suc n"] by (simp add: k k')
  next
    case False
    then show ?thesis by (simp add: blit_beyond list_update_beyond)
  qed
qed

text \<open>
  Claim C3, as amended. When the noise before the one valid frame nowhere holds the full
  sync constant \<open>0xAA 0x55\<close> (a lone \<open>0xAA\<close>, also as the last noise byte, is allowed),
  the reader delivers exactly one packet, the frame's, and reports nothing else, however
  the stream is cut into chunks. In the Syncing state a two-byte window that does not
  match is shifted by one byte: the newer byte becomes the window's first byte and the
  cursor goes back to 1.
\<close>

theorem noise_then_frame:
  "(\<not> has_sync noise \<and> valid_frame f \<and> concat chunks = noise @ f \<longrightarrow>
      sink (start new_SerialReader chunks) = [OnPacket (packet_of f)]) \<and>
   (state r = SYNCING \<and> bufferIndex r = 1 \<and> 2 \<le> length (buffer r) \<and>
    \<not> (buffer r ! 0 = 0xAA \<and> x = 0x55) \<longrightarrow>
      state (process_byte r x) = SYNCING \<and> bufferIndex (process_byte r x) = 1 \<and>
      buffer (process_byte r x) ! 0 = x)"
proof (intro conjI impI)
  assume "\<not> has_sync noise \<and> valid_frame f \<and> concat chunks = noise @ f"
  then show "sink (start new_SerialReader chunks) = [OnPacket (packet_of f)]"
    by (intro single_frame_after_noise [of noise]) simp_all
next
  assume a: "state r = SYNCING \<and> bufferIndex r = 1 \<and> 2 \<le> length (buffer r) \<and>
    \<not> (buffer r ! 0 = 0xAA \<and> x = 0x55)"
  then have s: "process_byte r x = r\<lparr> buffer := (buffer r)[1 := x, 0 := x], bufferIndex := 1 \<rparr>"
    by (intro syncing_nomatch) simp_all
  from a have ne: "buffer r \<noteq> []" by auto
  show "state (process_byte r x) = SYNCING" "bufferIndex (process_byte r x) = 1"
    "buffer (process_byte r x) ! 0 = x"
    unfolding s using a ne by simp_all
qed

theorem noise_then_frame_witness:
  "\<not> has_sync [0x01, 0xAA, 0x54, 0x55, 0xAA] \<and> valid_frame [0xAA, 0x55, 1, 2, 7, 5] \<and>
   sink (start new_SerialReader [[0x01, 0xAA, 0x54], [0x55, 0xAA, 0xAA], [0x55, 1, 2, 7], [5]]) =
     [OnPacket \<lparr> sync = 0xAA55, length_f = 1, command = 2, payload = [7], checksum = 5 \<rparr>] \<and>
   state (process_byte (started\<lparr> bufferIndex := 1 \<rparr>) 0xAA) = SYNCING \<and>
   bufferIndex (process_byte (started\<lparr> bufferIndex := 1 \<rparr>) 0xAA) = 1 \<and>
   buffer (process_byte (started\<lparr> bufferIndex := 1 \<rparr>) 0xAA) ! 0 = 0xAA"
proof -
  have n: "\<not> has_sync [0x01, 0xAA, 0x54, 0x55, 0xAA]" by simp
  have v: "valid_frame [0xAA, 0x55, 1, 2, 7, 5]"
    by (simp add: valid_frame_def frame_def slice_def calculateChecksum_def PACKET_MAX_SIZE_def)
  have c: "concat [[0x01, 0xAA, 0x54], [0x55, 0xAA, 0xAA], [0x55, 1, 2, 7], [5]] =
             [0x01, 0xAA, 0x54, 0x55, 0xAA] @ [0xAA, 0x55, 1, 2, 7, 5 :: byte]" by simp
  have h: "state (started\<lparr> bufferIndex := 1 \<rparr>) = SYNCING \<and>
           bufferIndex (started\<lparr> bufferIndex := 1 \<rparr>) = 1 \<and>
           2 \<le> length (buffer (started\<lparr> bufferIndex := 1 \<rparr>)) \<and>
           \<not> (buffer (started\<lparr> bufferIndex := 1 \<rparr>) ! 0 = 0xAA \<and> (0xAA :: byte) = 0x55)"
    by (simp add: started_def new_SerialReader_def PACKET_MAX_SIZE_def)
  show ?thesis
    using n v c h
      noise_then_frame [of "[0x01, 0xAA, 0x54, 0x55, 0xAA]" "[0xAA, 0x55, 1, 2, 7, 5]"
        "[[0x01, 0xAA, 0x54], [0x55, 0xAA, 0xAA], [0x55, 1, 2, 7], [5]]"
        "started\<lparr> bufferIndex := 1 \<rparr>" "0xAA"]
    by (simp add: packet_of_def slice_def SYNC_WORD_def)
qed

text \<open>
  Claim C3 fails as stated: noise that holds the sync constant is taken for a frame.
  Here the five noise bytes \<open>AA 55 00 07 09\<close> come before the valid frame
  \<open>AA 55 00 01 01\<close>, and two packets are delivered, the first made of noise.
\<close>

theorem noise_false_sync_counterexample:
  "valid_frame [0xAA, 0x55, 0, 1, 1] \<and>
   sink (start new_SerialReader [[0xAA, 0x55, 0, 7, 9] @ [0xAA, 0x55, 0, 1, 1]]) =
     [OnPacket \<lparr> sync = 0xAA55, length_f = 0, command = 7, payload = [], checksum = 9 \<rparr>,
      OnPacket \<lparr> sync = 0xAA55, length_f = 0, command = 1, payload = [], checksum = 1 \<rparr>]"
proof -
  have v: "valid_frame [0xAA, 0x55, 0, 1, 1]"
    by (simp add: valid_frame_def frame_def slice_def calculateChecksum_def PACKET_MAX_SIZE_def)
  have "sink (processBytes started (frame 0 7 [] 9 @ frame 0 1 [] 1)) =
          sink started @ [frame_event 0 7 [] 9, frame_event 0 1 [] 1]"
    by (intro two_frames) (simp_all add: started_ready)
  then show ?thesis
    using v by (simp add: sink_start started_ready frame_event_def frame_def SYNC_WORD_def
        PACKET_MAX_SIZE_def)
qed

text \<open>
  Claim C1, as amended. For every byte stream and every chunking, each packet the reader
  delivers is well framed: its sync is \<open>0xAA55\<close>, its payload has the declared length,
  and its fields, laid out as a wire frame, are a contiguous run of the bytes read; the
  checksum field is the byte received after the payload. The reader does not compare it
  with the XOR-fold of command and payload.
\<close>

theorem delivered_packets_framed:
  "\<forall>p \<in> set (packets (start new_SerialReader chunks)).
     sync p = 0xAA55 \<and> length (payload p) = unat (length_f p) \<and>
     sublist ([0xAA, 0x55, length_f p, command p] @ payload p @ [checksum p]) (concat chunks)"
proof -
  have "packets (start new_SerialReader chunks) = packets (processBytes started (concat chunks))"
    using sink_start [of chunks] by (simp add: packets_def)
  moreover have "packets_ok (concat chunks) (processBytes started (concat chunks))"
    using reachable_inv [of "concat chunks"] by simp
  ultimately show ?thesis
    by (simp add: packets_ok_def framed_in_def frame_def SYNC_WORD_def)
qed

lemma bad_checksum_run:
  "sink (start new_SerialReader [[0xAA, 0x55, 0, 1, 0xFF]]) =
     [OnPacket \<lparr> sync = 0xAA55, length_f = 0, command = 1, payload = [], checksum = 0xFF \<rparr>]"
proof -
  obtain buf where "processBytes started (frame 0 1 [] 0xFF) =
            started\<lparr> state := SYNCING, buffer := buf, bufferIndex := 0, expectedLength := 0,
               sink := sink started @ [frame_event 0 1 [] 0xFF] \<rparr>"
    using recv_frame [of started "[]" 0 1 "0xFF"] by (auto simp: started_ready)
  then show ?thesis
    by (simp add: sink_start started_ready frame_event_def frame_def SYNC_WORD_def PACKET_MAX_SIZE_def)
qed

theorem delivered_packets_framed_witness:
  "packets (start new_SerialReader [[0xAA, 0x55, 0, 1, 0xFF]]) =
     [\<lparr> sync = 0xAA55, length_f = 0, command = 1, payload = [], checksum = 0xFF \<rparr>] \<and>
   sublist [0xAA, 0x55, 0, 1, 0xFF :: byte] (concat [[0xAA, 0x55, 0, 1, 0xFF]])"
  using delivered_packets_framed [of "[[0xAA, 0x55, 0, 1, 0xFF]]"] bad_checksum_run
  by (simp add: packets_def)

text \<open>
  Claim C1 fails as stated: the stream \<open>AA 55 00 01 FF\<close> is a frame whose checksum byte
  \<open>FF\<close> is not the XOR-fold \<open>01\<close> of its command and empty payload, and the reader
  delivers it to the packet callback.
\<close>

theorem bad_checksum_delivered_counterexample:
  "packets (start new_SerialReader [[0xAA, 0x55, 0, 1, 0xFF]]) =
     [\<lparr> sync = 0xAA55, length_f = 0, command = 1, payload = [], checksum = 0xFF \<rparr>] \<and>
   calculateChecksum (1 # []) \<noteq> 0xFF"
  using bad_checksum_run by (simp add: packets_def calculateChecksum_def)

lemma oversize_from_synced:
  assumes st: "state r = READING_HEADER" and i2: "bufferIndex r = 2"
    and len: "length (buffer r) = PACKET_MAX_SIZE"
    and b: "buffer r ! 0 = 0xAA" "buffer r ! 1 = 0x55"
    and big: "251 < unat L" and lx: "length xs = unat L + 1"
  shows "processBytes r (L # cmd # xs) =
           r\<lparr> state := SYNCING, buffer := blit (buffer r) 2 (L # cmd # xs), bufferIndex := 0,
              expectedLength := 0,
              sink := sink r @ [OnError (IncompletePacket (4 + unat L + 1) PACKET_MAX_SIZE)] \<rparr>"
    and "parsePacket (slice (blit (buffer r) 2 (L # cmd # xs)) 0 (4 + unat L + 1)) =
           Inl (IncompletePacket (4 + unat L + 1) PACKET_MAX_SIZE)"
    and "strict_prefix ys (L # cmd # xs) \<Longrightarrow> sink (processBytes r ys) = sink r"
proof -
  let ?b3 = "(buffer r)[2 := L, 3 := cmd]"
  let ?r3 = "r\<lparr> buffer := ?b3, bufferIndex := 4, expectedLength := unat L, state := READING_PAYLOAD \<rparr>"
  have l4: "4 \<le> length (buffer r)" using len by (simp add: PACKET_MAX_SIZE_def)
  have s1: "process_byte r L = r\<lparr> buffer := (buffer r)[2 := L], bufferIndex := 3 \<rparr>"
    using st i2 by (simp add: process_byte_def handleReadingHeader_def store_byte_def Let_def)
  have s2: "process_byte (process_byte r L) cmd = ?r3"
    unfolding s1 using st l4
    by (simp add: process_byte_def handleReadingHeader_def store_byte_def Let_def)
  let ?B = "blit ?b3 4 xs"
  have B: "blit (buffer r) 2 (L # cmd # xs) = ?B" by (simp add: eval_nat_numeral)
  have lB: "length ?B = PACKET_MAX_SIZE" using len by simp
  have nB: "?B ! 0 = 0xAA" "?B ! 1 = 0x55" "?B ! 2 = L"
    using b l4 by (simp_all add: nth_blit_below)
  have bigB: "251 < unat (?B ! 2)" using big nB by simp
  have sl: "slice ?B 0 (4 + unat L + 1) = ?B"
    using big lB by (simp add: slice_def PACKET_MAX_SIZE_def)
  have pp: "parsePacket (slice ?B 0 (4 + unat L + 1)) =
              Inl (IncompletePacket (4 + unat L + 1) PACKET_MAX_SIZE)"
    unfolding sl using parsePacket_overflow [OF lB nB(1,2) bigB] nB by simp
  show "parsePacket (slice (blit (buffer r) 2 (L # cmd # xs)) 0 (4 + unat L + 1)) =
           Inl (IncompletePacket (4 + unat L + 1) PACKET_MAX_SIZE)"
    unfolding B by (rule pp)
  from lx obtain zs c where xs: "xs = zs @ [c]" and lz: "length zs = unat L"
    by (cases xs rule: rev_cases) simp_all
  have "processBytes ?r3 (zs @ [c]) = resetState (processPacket
       (?r3\<lparr> buffer := blit (buffer ?r3) (bufferIndex ?r3) (zs @ [c]),
           bufferIndex := bufferIndex ?r3 + length zs + 1 \<rparr>))"
    by (rule payload_complete) (simp_all add: lz)
  also have "\<dots> = r\<lparr> state := SYNCING, buffer := ?B, bufferIndex := 0,
              expectedLength := 0,
              sink := sink r @ [OnError (IncompletePacket (4 + unat L + 1) PACKET_MAX_SIZE)] \<rparr>"
    using pp by (simp add: resetState_def processPacket_def Let_def xs lz)
  finally have fin: "processBytes ?r3 xs = r\<lparr> state := SYNCING, buffer := ?B, bufferIndex := 0,
              expectedLength := 0,
              sink := sink r @ [OnError (IncompletePacket (4 + unat L + 1) PACKET_MAX_SIZE)] \<rparr>"
    unfolding xs .
  have "processBytes r (L # cmd # xs) = processBytes ?r3 xs"
    by (simp only: processBytes_Cons s2)
  then show "processBytes r (L # cmd # xs) =
           r\<lparr> state := SYNCING, buffer := blit (buffer r) 2 (L # cmd # xs), bufferIndex := 0,
              expectedLength := 0,
              sink := sink r @ [OnError (IncompletePacket (4 + unat L + 1) PACKET_MAX_SIZE)] \<rparr>"
    unfolding B fin .
  assume sp: "strict_prefix ys (L # cmd # xs)"
  show "sink (processBytes r ys) = sink r"
  proof (cases ys)
    case Nil
    then show ?thesis by simp
  next
    case (Cons y ys')
    with sp have y: "y = L" and sp': "strict_prefix ys' (cmd # xs)" by simp_all
    show ?thesis
    proof (cases ys')
      case Nil
      then show ?thesis using Cons y by (simp add: s1)
    next
      case (Cons y' ws)
      with sp' have y': "y' = cmd" and sw: "strict_prefix ws xs" by simp_all
      have "length ws < length xs" using sw by (rule prefix_length_less)
      then have "processBytes ?r3 ws =
        ?r3\<lparr> buffer := blit (buffer ?r3) (bufferIndex ?r3) ws,
            bufferIndex := bufferIndex ?r3 + length ws \<rparr>"
        using lx by (intro payload_pending) simp_all
      moreover have "processBytes r ys = processBytes ?r3 ws"
        unfolding \<open>ys = y # ys'\<close> Cons y y' by (simp only: processBytes_Cons s2)
      ultimately show ?thesis by simp
    qed
  qed
qed

text \<open>
  Claim C10. Take the reader at any point of any byte stream where it has just found the
  sync constant, and let the header that follows declare a length \<open>L > 251\<close>, so that
  \<open>4 + L + 1\<close> is more than the 256-byte scratch buffer. Once the \<open>L + 1\<close> bytes after the
  header are read, the reader has delivered no packet for this frame: nothing is
  reported before the last byte, the stores past the end of the buffer were dropped
  (only the first 254 bytes after the sync constant are kept), \<open>parsePacket\<close> on the
  buffered data fails with 'Incomplete packet', that error is what the error callback
  receives, and the reader is back in the Syncing state with its cursor at zero.
\<close>

theorem oversize_frame_rejected:
  assumes "r = processBytes started pre" "state r = READING_HEADER" "bufferIndex r = 2"
    and "251 < unat L" "length xs = unat L + 1"
  shows "processBytes r (L # cmd # xs) =
           r\<lparr> state := SYNCING, buffer := blit (buffer r) 2 (take 254 (L # cmd # xs)),
              bufferIndex := 0, expectedLength := 0,
              sink := sink r @ [OnError (IncompletePacket (4 + unat L + 1) 256)] \<rparr> \<and>
         parsePacket (slice (blit (buffer r) 2 (L # cmd # xs)) 0 (4 + unat L + 1)) =
           Inl (IncompletePacket (4 + unat L + 1) 256) \<and>
         packets (processBytes r (L # cmd # xs)) = packets r \<and>
         (\<forall>ys. strict_prefix ys (L # cmd # xs) \<longrightarrow> sink (processBytes r ys) = sink r)"
proof -
  have "shape_ok r" using reachable_inv [of pre] assms(1) by simp
  with assms(2) have len: "length (buffer r) = PACKET_MAX_SIZE"
    and b: "buffer r ! 0 = 0xAA" "buffer r ! 1 = 0x55"
    by (simp_all add: shape_ok_def)
  note o = oversize_from_synced [OF assms(2,3) len b assms(4,5)]
  have "blit (buffer r) 2 (L # cmd # xs) = blit (buffer r) 2 (take (length (buffer r) - 2) (L # cmd # xs))"
    by (rule blit_take)
  then have k: "blit (buffer r) 2 (L # cmd # xs) = blit (buffer r) 2 (take 254 (L # cmd # xs))"
    by (simp add: len PACKET_MAX_SIZE_def)
  have 1: "processBytes r (L # cmd # xs) =
           r\<lparr> state := SYNCING, buffer := blit (buffer r) 2 (take 254 (L # cmd # xs)),
              bufferIndex := 0, expectedLength := 0,
              sink := sink r @ [OnError (IncompletePacket (4 + unat L + 1) 256)] \<rparr>"
    using o(1) [of cmd] unfolding k by (simp add: PACKET_MAX_SIZE_def)
  have 2: "parsePacket (slice (blit (buffer r) 2 (L # cmd # xs)) 0 (4 + unat L + 1)) =
           Inl (IncompletePacket (4 + unat L + 1) 256)"
    using o(2) [of cmd] by (simp add: PACKET_MAX_SIZE_def)
  have 3: "packets (processBytes r (L # cmd # xs)) = packets r"
    unfolding 1 by (simp add: packets_def)
  have 4: "\<forall>ys. strict_prefix ys (L # cmd # xs) \<longrightarrow> sink (processBytes r ys) = sink r"
    using o(3) by blast
  show ?thesis using 1 2 3 4 by blast
qed

theorem oversize_frame_rejected_witness:
  "state (processBytes started [0xAA, 0x55]) = READING_HEADER \<and>
   bufferIndex (processBytes started [0xAA, 0x55]) = 2 \<and>
   251 < unat (0xFF :: byte) \<and> length (replicate 256 (0 :: byte)) = unat (0xFF :: byte) + 1 \<and>
   sink (processBytes (processBytes started [0xAA, 0x55]) (0xFF # 1 # replicate 256 0)) =
     [OnError (IncompletePacket 260 256)] \<and>
   state (processBytes (processBytes started [0xAA, 0x55]) (0xFF # 1 # replicate 256 0)) = SYNCING \<and>
   bufferIndex (processBytes (processBytes started [0xAA, 0x55]) (0xFF # 1 # replicate 256 0)) = 0"
proof -
  let ?r = "processBytes started [0xAA, 0x55]"
  have r: "?r = started\<lparr> buffer := (buffer started)[0 := 0xAA, 1 := 0x55], bufferIndex := 2,
                         state := READING_HEADER \<rparr>"
    by (simp add: process_byte_def handleSyncing_def store_byte_def Let_def getUint16_def
        SYNC_WORD_def started_def new_SerialReader_def PACKET_MAX_SIZE_def)
  have h: "state ?r = READING_HEADER" "bufferIndex ?r = 2" "sink ?r = []"
    unfolding r by (simp_all add: started_def new_SerialReader_def)
  have n: "251 < unat (0xFF :: byte)" "length (replicate 256 (0 :: byte)) = unat (0xFF :: byte) + 1"
    by simp_all
  show ?thesis
    using h n oversize_frame_rejected [OF refl h(1,2) n, of 1] by simp
qed







lemma length_le_bytes [simp]: "length (le_bytes w) = 4"
  by (simp add: le_bytes_def)




lemma wrun_Nil [simp]: "wrun w [] = w"
  by (simp add: wrun_def)


lemma wrun_Cons [simp]: "wrun w (e # evs) = wrun (wstep w e) evs"
  by (simp add: wrun_def)


lemma length_capped: "length (capped q) < maxQueueSize"
  by (simp add: capped_def maxQueueSize_def)


lemma write_data_busy:
  "isWriting w \<Longrightarrow> write_data w d tn = w\<lparr> queue := capped (queue w) @ [d] \<rparr>"
  by (simp add: write_data_def capped_def Let_def)

lemma write_data_idle:
  "\<not> isWriting w \<Longrightarrow>
   write_data w d tn = loop_head (w\<lparr> queue := capped (queue w) @ [d], isWriting := True \<rparr>) tn"
  by (simp add: write_data_def capped_def Let_def processQueue_def)


lemma winv_shift: "winv w \<Longrightarrow> isWriting w \<Longrightarrow> winv (shift_and_write w)"
  by (auto simp: winv_def shift_and_write_def split: list.splits)

lemma winv_loop_head: "winv w \<Longrightarrow> isWriting w \<Longrightarrow> winv (loop_head w tn)"
  by (auto simp: loop_head_def Let_def winv_shift) (simp_all add: winv_def)


lemma winv_step: "winv w \<Longrightarrow> winv (wstep w e)"
proof (cases e)
  case (Call_write d tn)
  assume i: "winv w"
  show ?thesis
  proof (cases "isWriting w")
    case True
    then show ?thesis
      using i length_capped [of "queue w"] by (simp add: Call_write write_data_busy winv_def)
  next
    case False
    have "winv (w\<lparr> queue := capped (queue w) @ [d], isWriting := True \<rparr>)"
      using length_capped [of "queue w"] by (simp add: winv_def)
    then show ?thesis
      using False by (simp add: Call_write write_data_idle winv_loop_head)
  qed
next
  case Call_clearQueue
  assume "winv w"
  then show ?thesis by (auto simp: Call_clearQueue clearQueue_def winv_def)
next
  case Sleep_done
  assume i: "winv w"
  show ?thesis
  proof (cases "drain w")
    case Sleeping
    then have "isWriting w" using i by (auto simp: winv_def)
    then show ?thesis using i Sleeping by (simp add: Sleep_done winv_shift)
  qed (simp_all add: Sleep_done i)
next
  case (Write_done ok t tn)
  assume i: "winv w"
  show ?thesis
  proof (cases "drain w")
    case (Writing d)
    then have b: "isWriting w" using i by (auto simp: winv_def)
    have "winv (w\<lparr> lastWriteTime := t \<rparr>)" using i by (simp add: winv_def)
    then have "winv (loop_head (w\<lparr> lastWriteTime := t \<rparr>) tn)"
      using b by (intro winv_loop_head) simp_all
    moreover have "winv (w\<lparr> drain := NoDrain \<rparr>)" using i b by (simp add: winv_def)
    ultimately show ?thesis using Writing by (simp add: Write_done)
  qed (simp_all add: Write_done i)
qed

lemma winv_new: "winv (new_SerialWriter hz)"
  by (simp add: winv_def new_SerialWriter_def)

lemma winv_run: "winv w \<Longrightarrow> winv (wrun w evs)"
  by (induction evs arbitrary: w) (simp_all add: winv_step)

















lemma dead_step:
  assumes "isWriting w" "drain w = NoDrain"
  shows "isWriting (wstep w e) \<and> drain (wstep w e) = NoDrain \<and> transport (wstep w e) = transport w"
  using assms by (cases e) (simp_all add: write_data_busy clearQueue_def)

lemma dead_run:
  "isWriting w \<Longrightarrow> drain w = NoDrain \<Longrightarrow>
   isWriting (wrun w evs) \<and> drain (wrun w evs) = NoDrain \<and> transport (wrun w evs) = transport w"
proof (induction evs arbitrary: w)
  case Nil
  then show ?case by simp
next
  case (Cons e evs)
  from dead_step [OF Cons.prems, of e] Cons.IH [of "wstep w e"] show ?case by simp
qed

text \<open>
  Claim C9. Let a transport write fail while a drain is waiting for it. \<^verbatim>\<open>processQueue\<close>
  throws with \<^verbatim>\<open>isWriting\<close> still set; the backlog is kept. From then on, whatever is
  called on this writer, \<^verbatim>\<open>isWriting\<close> stays set and nothing more is handed to the
  transport: \<^verbatim>\<open>write(data)\<close> only appends (dropping the oldest frames at capacity, so the
  backlog stays within 10), and \<^verbatim>\<open>clearQueue\<close> empties the backlog without resetting
  \<^verbatim>\<open>isWriting\<close>.
\<close>

theorem writer_dead_after_failure:
  assumes "w = wrun (new_SerialWriter hz) evs" "drain w = Writing x"
    and "wd = wstep w (Write_done False t tn)" "w' = wrun wd evs'"
  shows "isWriting wd \<and> drain wd = NoDrain \<and> queue wd = queue w \<and> transport wd = transport w \<and>
         isWriting w' \<and> drain w' = NoDrain \<and> transport w' = transport w \<and>
         length (queue w') \<le> 10 \<and>
         wstep w' (Call_write d t') =
           w'\<lparr> queue := (if length (queue w') \<ge> 10 then drop (length (queue w') - 9) (queue w')
                          else queue w') @ [d] \<rparr> \<and>
         wstep w' Call_clearQueue = w'\<lparr> queue := [] \<rparr>"
proof -
  have i: "winv w" unfolding assms(1) by (intro winv_run winv_new)
  with assms(2) have b: "isWriting w" by (auto simp: winv_def)
  have wd: "wd = w\<lparr> drain := NoDrain \<rparr>" using assms(2,3) by simp
  have 1: "isWriting wd" "drain wd = NoDrain" "queue wd = queue w" "transport wd = transport w"
    using b by (simp_all add: wd)
  have "winv wd" using i b by (simp add: wd winv_def)
  then have "winv w'" unfolding assms(4) by (rule winv_run)
  then have 2: "length (queue w') \<le> 10" by (simp add: winv_def maxQueueSize_def)
  have 3: "isWriting w'" "drain w' = NoDrain" "transport w' = transport w"
    using dead_run [OF 1(1,2), of evs'] 1(4) by (simp_all add: assms(4))
  have 4: "wstep w' (Call_write d t') =
           w'\<lparr> queue := (if length (queue w') \<ge> 10 then drop (length (queue w') - 9) (queue w')
                          else queue w') @ [d] \<rparr>"
    using 3(1) by (simp add: write_data_busy capped_def maxQueueSize_def)
  have 5: "wstep w' Call_clearQueue = w'\<lparr> queue := [] \<rparr>"
    by (simp add: clearQueue_def)
  show ?thesis using 1 2 3 4 5 by blast
qed

lemma one_write_in_flight:
  "wrun (new_SerialWriter 100) [Call_write (7::nat) 2000] =
     \<lparr> queue = [], isWriting = True, throttleHz = 100, lastWriteTime = 0,
       drain = Writing 7, transport = [7] \<rparr>"
  by (simp add: new_SerialWriter_def write_data_def processQueue_def loop_head_def Let_def
      maxQueueSize_def shift_and_write_def)

theorem writer_dead_after_failure_witness:
  "drain (wrun (new_SerialWriter 100) [Call_write (7::nat) 2000]) = Writing 7 \<and>
   wrun (wstep (wrun (new_SerialWriter 100) [Call_write (7::nat) 2000]) (Write_done False 2001 2001))
     [Call_write 8 3000, Call_clearQueue, Call_write 9 4000, Sleep_done] =
     \<lparr> queue = [9], isWriting = True, throttleHz = 100, lastWriteTime = 0,
       drain = NoDrain, transport = [7] \<rparr>"
proof -
  let ?w = "wrun (new_SerialWriter 100) [Call_write (7::nat) 2000]"
  have d: "drain ?w = Writing 7" unfolding one_write_in_flight by simp
  let ?w' = "wrun (wstep ?w (Write_done False 2001 2001))
     [Call_write 8 3000, Call_clearQueue, Call_write 9 4000, Sleep_done]"
  have q: "queue ?w' = [9]"
    unfolding one_write_in_flight by (simp add: write_data_def clearQueue_def Let_def maxQueueSize_def)
  have h: "throttleHz ?w' = 100" "lastWriteTime ?w' = 0"
    unfolding one_write_in_flight by (simp_all add: write_data_def clearQueue_def Let_def maxQueueSize_def)
  have "isWriting ?w' \<and> drain ?w' = NoDrain \<and> transport ?w' = transport ?w"
    using writer_dead_after_failure [OF refl d refl refl, of 2001 2001
        "[Call_write 8 3000, Call_clearQueue, Call_write 9 4000, Sleep_done]"]
    by blast
  then have "isWriting ?w' \<and> drain ?w' = NoDrain \<and> transport ?w' = [7]"
    unfolding one_write_in_flight by simp
  with q h have "?w' = \<lparr> queue = [9], isWriting = True, throttleHz = 100, lastWriteTime = 0,
       drain = NoDrain, transport = [7] \<rparr>"
    by (cases ?w') simp
  with d show ?thesis by simp
qed

declare retry_loop.simps [simp del]

lemma retry_loop_all_fail:
  assumes "retryAttempts L = N"
    and "\<forall>k. 1 \<le> k \<and> k \<le> N \<longrightarrow> attempt_outcome (fetch E k) = Inl (errs k)"
  shows "1 \<le> attempt \<Longrightarrow> attempt \<le> N \<Longrightarrow> d = N - attempt \<Longrightarrow>
         retry_loop L E attempt =
           (Inl (ManifestLoadFailed N (errs N)),
            concat (replicate d [Fetch (manifestUrl L), Sleep (retryDelay L)]) @ [Fetch (manifestUrl L)],
            L)"
proof (induction d arbitrary: attempt)
  case 0
  then have a: "attempt = N" by simp
  have f: "attempt_outcome (fetch E N) = Inl (errs N)" using assms(2) 0 a by simp
  show ?case
    unfolding a by (subst retry_loop.simps) (simp add: assms(1) f)
next
  case (Suc d)
  then have lt: "attempt < N" and d: "d = N - (attempt + 1)" by simp_all
  have f: "attempt_outcome (fetch E attempt) = Inl (errs attempt)" using assms(2) Suc.prems by simp
  have "retry_loop L E (attempt + 1) =
           (Inl (ManifestLoadFailed N (errs N)),
            concat (replicate d [Fetch (manifestUrl L), Sleep (retryDelay L)]) @ [Fetch (manifestUrl L)],
            L)"
    using lt d by (intro Suc.IH) simp_all
  then show ?case
    using lt by (subst retry_loop.simps) (simp add: assms(1) f)
qed

lemma count_fetches:
  "length (filter (\<lambda>e. e = Fetch u) (concat (replicate n [Fetch u, Sleep d]) @ [Fetch u])) = Suc n"
  by (induction n) simp_all

lemma sleeps_between:
  "filter (\<lambda>e. e \<noteq> Fetch u) (concat (replicate n [Fetch u, Sleep d]) @ [Fetch u]) = replicate n (Sleep d)"
  by (induction n) simp_all

text \<open>
  Claim C7. When no fresh manifest is cached and every one of the \<open>N = retryAttempts\<close>
  attempts fails (\<open>N \<ge> 1\<close>; the configuration has 3), \<open>loadManifest\<close> fetches exactly \<open>N\<close>
  times, sleeps \<open>retryDelay\<close> between two consecutive attempts and not after the last,
  leaves the loader unchanged and fails with the manifest-load fault that carries the
  error of the last attempt. A network error, a non-success status, a body that is not
  an object and a body without truthy \<open>version\<close>/\<open>generated\<close> or without an \<open>assets\<close>
  array are all failures of the attempt, retried alike.
\<close>

theorem loadManifest_all_attempts_fail:
  assumes "case manifestCache L (manifestUrl L) of None \<Rightarrow> True
           | Some (data, timestamp) \<Rightarrow> \<not> now E - timestamp < cacheTimeout L"
    and "1 \<le> retryAttempts L"
    and "\<forall>k. 1 \<le> k \<and> k \<le> retryAttempts L \<longrightarrow> attempt_outcome (fetch E k) = Inl (errs k)"
  shows "loadManifest L E =
           (Inl (ManifestLoadFailed (retryAttempts L) (errs (retryAttempts L))),
            concat (replicate (retryAttempts L - 1) [Fetch (manifestUrl L), Sleep (retryDelay L)])
              @ [Fetch (manifestUrl L)],
            L) \<and>
         length (filter (\<lambda>e. e = Fetch (manifestUrl L)) (fst (snd (loadManifest L E)))) = retryAttempts L \<and>
         filter (\<lambda>e. e \<noteq> Fetch (manifestUrl L)) (fst (snd (loadManifest L E))) =
           replicate (retryAttempts L - 1) (Sleep (retryDelay L)) \<and>
         attempt_outcome (Fetch_rejects msg) = Inl (NetworkError msg) \<and>
         attempt_outcome (Response False status txt js) = Inl (HttpError status txt) \<and>
         attempt_outcome (Response True status txt (Inr NonObject)) = Inl NotAnObject \<and>
         (truthy v = None \<or> truthy g = None \<or> a = None \<longrightarrow>
            attempt_outcome (Response True status txt (Inr (PartialManifest v g p a))) = Inl MissingFields)"
proof -
  have r: "retry_loop L E 1 =
           (Inl (ManifestLoadFailed (retryAttempts L) (errs (retryAttempts L))),
            concat (replicate (retryAttempts L - 1) [Fetch (manifestUrl L), Sleep (retryDelay L)])
              @ [Fetch (manifestUrl L)],
            L)"
    using assms(2) by (intro retry_loop_all_fail [OF refl assms(3)]) simp_all
  have l: "loadManifest L E = retry_loop L E 1"
    using assms(1) by (auto simp: loadManifest_def split: option.splits)
  have c: "Suc (retryAttempts L - 1) = retryAttempts L" using assms(2) by simp
  have m: "truthy v = None \<or> truthy g = None \<or> a = None \<longrightarrow>
            attempt_outcome (Response True status txt (Inr (PartialManifest v g p a))) = Inl MissingFields"
    by (auto simp: attempt_outcome_def validateManifest_def split: option.splits)
  have 1: "length (filter (\<lambda>e. e = Fetch (manifestUrl L)) (fst (snd (loadManifest L E)))) = retryAttempts L"
    by (simp only: l r fst_conv snd_conv count_fetches c)
  have 2: "filter (\<lambda>e. e \<noteq> Fetch (manifestUrl L)) (fst (snd (loadManifest L E))) =
           replicate (retryAttempts L - 1) (Sleep (retryDelay L))"
    by (simp only: l r fst_conv snd_conv sleeps_between)
  have 3: "attempt_outcome (Fetch_rejects msg) = Inl (NetworkError msg)"
    "attempt_outcome (Response False status txt js) = Inl (HttpError status txt)"
    "attempt_outcome (Response True status txt (Inr NonObject)) = Inl NotAnObject"
    by (simp_all add: attempt_outcome_def validateManifest_def)
  show ?thesis
    using l r 1 2 3 m by simp
qed

theorem loadManifest_all_attempts_fail_witness:
  "loadManifest (new_CDNAssetLoader ''https://assets.openarm.dev/manifest.json''
                   ''https://assets.openarm.dev'' 300000 3 1000)
     \<lparr> now = 0,
       fetch = (\<lambda>k. if k = 1 then Fetch_rejects ''offline''
                   else if k = 2 then Response False 500 ''Internal Server Error'' (Inl [])
                   else Response True 200 ''OK''
                          (Inr (PartialManifest None (Some ''2024-01-01'') None (Some [])))),
       clock = (\<lambda>k. 0) \<rparr> =
   (Inl (ManifestLoadFailed 3 MissingFields),
    [Fetch ''https://assets.openarm.dev/manifest.json'', Sleep 1000,
     Fetch ''https://assets.openarm.dev/manifest.json'', Sleep 1000,
     Fetch ''https://assets.openarm.dev/manifest.json''],
    new_CDNAssetLoader ''https://assets.openarm.dev/manifest.json''
                   ''https://assets.openarm.dev'' 300000 3 1000)"
proof -
  let ?L = "new_CDNAssetLoader ''https://assets.openarm.dev/manifest.json''
                   ''https://assets.openarm.dev'' 300000 3 1000"
  let ?E = "\<lparr> now = 0,
       fetch = (\<lambda>k. if k = 1 then Fetch_rejects ''offline''
                   else if k = 2 then Response False 500 ''Internal Server Error'' (Inl [])
                   else Response True 200 ''OK''
                          (Inr (PartialManifest None (Some ''2024-01-01'') None (Some [])))),
       clock = (\<lambda>k. 0) \<rparr>"
  let ?errs = "\<lambda>k::nat. if k = 1 then NetworkError ''offline''
                   else if k = 2 then HttpError 500 ''Internal Server Error'' else MissingFields"
  have c: "case manifestCache ?L (manifestUrl ?L) of None \<Rightarrow> True
           | Some (data, timestamp) \<Rightarrow> \<not> now ?E - timestamp < cacheTimeout ?L"
    by (simp add: new_CDNAssetLoader_def)
  have n: "1 \<le> retryAttempts ?L" by (simp add: new_CDNAssetLoader_def)
  have f: "\<forall>k. 1 \<le> k \<and> k \<le> retryAttempts ?L \<longrightarrow> attempt_outcome (fetch ?E k) = Inl (?errs k)"
    by (simp add: attempt_outcome_def validateManifest_def truthy_def)
  have "retryAttempts ?L = 3" "manifestUrl ?L = ''https://assets.openarm.dev/manifest.json''"
    "retryDelay ?L = 1000"
    by (simp_all add: new_CDNAssetLoader_def)
  then show ?thesis
    using loadManifest_all_attempts_fail [OF c n f] by (simp add: eval_nat_numeral)
qed

lemma retry_loop_success:
  "retry_loop L E attempt = (Inr m, tr, L1) \<Longrightarrow>
   manifest L1 = Some m \<and> publicUrl L1 = publicUrl L \<and> assetUrlCache L1 = assetUrlCache L"
proof (induction L E attempt arbitrary: tr rule: retry_loop.induct)
  case (1 L E attempt)
  show ?case
  proof (cases "attempt \<le> retryAttempts L")
    case False
    with "1.prems" show ?thesis by (subst (asm) retry_loop.simps) simp
  next
    case le: True
    show ?thesis
    proof (cases "attempt_outcome (fetch E attempt)")
      case (Inr m')
      with "1.prems" le show ?thesis by (subst (asm) retry_loop.simps) auto
    next
      case (Inl err)
      show ?thesis
      proof (cases "attempt < retryAttempts L")
        case False
        with "1.prems" le Inl show ?thesis by (subst (asm) retry_loop.simps) simp
      next
        case lt: True
        obtain r tr' L' where rl: "retry_loop L E (attempt + 1) = (r, tr', L')"
          by (cases "retry_loop L E (attempt + 1)") auto
        from "1.prems" le Inl lt rl have "r = Inr m" "L' = L1"
          by (subst (asm) retry_loop.simps, simp)+
        with "1.IH" [OF le Inl lt] rl show ?thesis by simp
      qed
    qed
  qed
qed

lemma find_first:
  assumes "xs = pre @ a # post" "P a" "\<forall>b \<in> set pre. \<not> P b"
  shows "find P xs = Some a"
  using assms(3) unfolding assms(1) by (induction pre) (simp_all add: assms(2))

lemma find_none: "\<forall>b \<in> set xs. \<not> P b \<Longrightarrow> find P xs = None"
  by (simp add: find_None_iff)

lemma spec_asset_url_eq:
  "(case truthy (url a) of Some u \<Rightarrow> u | None \<Rightarrow> constructAssetUrl L a) = spec_asset_url (publicUrl L) a"
  by (simp add: truthy_def constructAssetUrl_def spec_asset_url_def split: option.splits)

lemma getAssetUrl_miss:
  assumes "truthy (assetUrlCache L name) = None" "ensure_manifest L E = (None, tr, L1)"
    "manifest L1 = Some m"
  shows "getAssetUrl L E name =
     (case find (\<lambda>a. original a = name) (assets m) of
        None \<Rightarrow> (Inl (AssetNotFound name), tr, L1)
      | Some a \<Rightarrow> (Inr (spec_asset_url (publicUrl L1) a), tr,
                    L1\<lparr> assetUrlCache := (assetUrlCache L1)(name \<mapsto> spec_asset_url (publicUrl L1) a) \<rparr>))"
  using assms by (simp add: getAssetUrl_def Let_def spec_asset_url_eq split: option.splits)

text \<open>
  Claim C8. \<open>getAssetUrl name\<close> returns the cached URL of \<open>name\<close> at once, with no search and
  no fetch, when one is cached. On a miss it makes sure a manifest is held, calling
  \<open>loadManifest\<close> only when none is (a load fault goes to the caller). It then takes the
  first entry of the manifest whose \<open>original\<close> is \<open>name\<close>; without such an entry it fails
  with the asset-not-found fault naming \<open>name\<close>. For the entry found it returns the
  entry's \<open>url\<close> if present, otherwise \<open>publicUrl + '/' + processed\<close> for the type
  \<open>application/xml\<close> and \<open>publicUrl + '/assets/' + processed\<close> for any other type, and
  stores that URL in the cache under \<open>name\<close>. (Present means truthy: the empty string
  counts as absent, in the cache and in the entry.)
\<close>

theorem getAssetUrl_resolution:
  "(assetUrlCache L name = Some u \<and> u \<noteq> [] \<longrightarrow> getAssetUrl L E name = (Inr u, [], L)) \<and>
   (manifest L = Some m0 \<longrightarrow> ensure_manifest L E = (None, [], L)) \<and>
   (manifest L = None \<and> loadManifest L E = (Inl fault, tr, L1) \<longrightarrow>
      ensure_manifest L E = (Some fault, tr, L1)) \<and>
   (manifest L = None \<and> loadManifest L E = (Inr m', tr, L1) \<longrightarrow>
      ensure_manifest L E = (None, tr, L1)) \<and>
   (manifest L = None \<and> manifestCache L (manifestUrl L) = None \<and>
    loadManifest L E = (Inr m', tr, L1) \<longrightarrow>
      manifest L1 = Some m' \<and> publicUrl L1 = publicUrl L \<and> assetUrlCache L1 = assetUrlCache L) \<and>
   (truthy (assetUrlCache L name) = None \<and> ensure_manifest L E = (Some fault, tr, L1) \<longrightarrow>
      getAssetUrl L E name = (Inl fault, tr, L1)) \<and>
   (truthy (assetUrlCache L name) = None \<and> ensure_manifest L E = (None, tr, L1) \<and>
    manifest L1 = Some m \<and> (\<forall>b \<in> set (assets m). original b \<noteq> name) \<longrightarrow>
      getAssetUrl L E name = (Inl (AssetNotFound name), tr, L1)) \<and>
   (truthy (assetUrlCache L name) = None \<and> ensure_manifest L E = (None, tr, L1) \<and>
    manifest L1 = Some m \<and> assets m = pre @ a # post \<and> original a = name \<and>
    (\<forall>b \<in> set pre. original b \<noteq> name) \<longrightarrow>
      getAssetUrl L E name =
        (Inr (spec_asset_url (publicUrl L1) a), tr,
         L1\<lparr> assetUrlCache := (assetUrlCache L1)(name \<mapsto> spec_asset_url (publicUrl L1) a) \<rparr>))"
proof (intro conjI impI)
  assume "assetUrlCache L name = Some u \<and> u \<noteq> []"
  then show "getAssetUrl L E name = (Inr u, [], L)"
    by (simp add: getAssetUrl_def truthy_def)
next
  assume "manifest L = Some m0"
  then show "ensure_manifest L E = (None, [], L)" by (simp add: ensure_manifest_def)
next
  assume "manifest L = None \<and> loadManifest L E = (Inl fault, tr, L1)"
  then show "ensure_manifest L E = (Some fault, tr, L1)" by (simp add: ensure_manifest_def)
next
  assume "manifest L = None \<and> loadManifest L E = (Inr m', tr, L1)"
  then show "ensure_manifest L E = (None, tr, L1)" by (simp add: ensure_manifest_def)
next
  assume a: "manifest L = None \<and> manifestCache L (manifestUrl L) = None \<and>
    loadManifest L E = (Inr m', tr, L1)"
  then have "retry_loop L E 1 = (Inr m', tr, L1)" by (auto simp: loadManifest_def)
  from retry_loop_success [OF this]
  show "manifest L1 = Some m'" "publicUrl L1 = publicUrl L"  "assetUrlCache L1 = assetUrlCache L"
    by simp_all
next
  assume "truthy (assetUrlCache L name) = None \<and> ensure_manifest L E = (Some fault, tr, L1)"
  then show "getAssetUrl L E name = (Inl fault, tr, L1)" by (simp add: getAssetUrl_def)
next
  assume a: "truthy (assetUrlCache L name) = None \<and> ensure_manifest L E = (None, tr, L1) \<and>
    manifest L1 = Some m \<and> (\<forall>b \<in> set (assets m). original b \<noteq> name)"
  then have "find (\<lambda>a. original a = name) (assets m) = None" by (intro find_none) simp
  with a show "getAssetUrl L E name = (Inl (AssetNotFound name), tr, L1)"
    by (simp add: getAssetUrl_miss [of L name E tr L1 m])
next
  assume a: "truthy (assetUrlCache L name) = None \<and> ensure_manifest L E = (None, tr, L1) \<and>
    manifest L1 = Some m \<and> assets m = pre @ a # post \<and> original a = name \<and>
    (\<forall>b \<in> set pre. original b \<noteq> name)"
  then have "find (\<lambda>a. original a = name) (assets m) = Some a"
    by (intro find_first [of _ pre a post]) simp_all
  with a show "getAssetUrl L E name =
        (Inr (spec_asset_url (publicUrl L1) a), tr,
         L1\<lparr> assetUrlCache := (assetUrlCache L1)(name \<mapsto> spec_asset_url (publicUrl L1) a) \<rparr>)"
    by (simp add: getAssetUrl_miss [of L name E tr L1 m])
qed

theorem getAssetUrl_resolution_witness:
  "getAssetUrl
     ((new_CDNAssetLoader ''https://cdn/manifest.json'' ''https://cdn'' 300000 3 1000)
        \<lparr> manifest := Some \<lparr> version = ''1'', generated = ''2024'', processor = None,
            assets =
              [\<lparr> original = ''arm.stl'', processed = ''arm.abc.stl'', hash = ''abc'', size_f = 10,
                 type_f = ''model/stl'', url = None, path = None \<rparr>,
               \<lparr> original = ''robot.urdf'', processed = ''robot.123.urdf'', hash = ''123'', size_f = 5,
                 type_f = ''application/xml'', url = None, path = None \<rparr>,
               \<lparr> original = ''robot.urdf'', processed = ''robot.456.urdf'', hash = ''456'', size_f = 5,
                 type_f = ''application/xml'', url = Some ''https://other/robot.urdf'', path = None \<rparr>] \<rparr> \<rparr>)
     \<lparr> now = 0, fetch = (\<lambda>k. Fetch_rejects []), clock = (\<lambda>k. 0) \<rparr> ''robot.urdf'' =
   (Inr ''https://cdn/robot.123.urdf'', [],
    (new_CDNAssetLoader ''https://cdn/manifest.json'' ''https://cdn'' 300000 3 1000)
        \<lparr> manifest := Some \<lparr> version = ''1'', generated = ''2024'', processor = None,
            assets =
              [\<lparr> original = ''arm.stl'', processed = ''arm.abc.stl'', hash = ''abc'', size_f = 10,
                 type_f = ''model/stl'', url = None, path = None \<rparr>,
               \<lparr> original = ''robot.urdf'', processed = ''robot.123.urdf'', hash = ''123'', size_f = 5,
                 type_f = ''application/xml'', url = None, path = None \<rparr>,
               \<lparr> original = ''robot.urdf'', processed = ''robot.456.urdf'', hash = ''456'', size_f = 5,
                 type_f = ''application/xml'', url = Some ''https://other/robot.urdf'', path = None \<rparr>] \<rparr>,
          assetUrlCache := [''robot.urdf'' \<mapsto> ''https://cdn/robot.123.urdf''] \<rparr>)"
proof -
  let ?a1 = "\<lparr> original = ''arm.stl'', processed = ''arm.abc.stl'', hash = ''abc'', size_f = 10,
                 type_f = ''model/stl'', url = None, path = None \<rparr>"
  let ?a2 = "\<lparr> original = ''robot.urdf'', processed = ''robot.123.urdf'', hash = ''123'', size_f = 5,
                 type_f = ''application/xml'', url = None, path = None \<rparr>"
  let ?a3 = "\<lparr> original = ''robot.urdf'', processed = ''robot.456.urdf'', hash = ''456'', size_f = 5,
                 type_f = ''application/xml'', url = Some ''https://other/robot.urdf'', path = None \<rparr>"
  let ?M = "\<lparr> version = ''1'', generated = ''2024'', processor = None, assets = [?a1, ?a2, ?a3] \<rparr>"
  let ?L = "(new_CDNAssetLoader ''https://cdn/manifest.json'' ''https://cdn'' 300000 3 1000)
              \<lparr> manifest := Some ?M \<rparr>"
  let ?E = "\<lparr> now = 0, fetch = (\<lambda>k. Fetch_rejects []), clock = (\<lambda>k. 0) \<rparr>"
  note t = getAssetUrl_resolution [of ?L "''robot.urdf''" _ ?E ?M _ "[]" ?L _ ?M "[?a1]" ?a2 "[?a3]"]
  have h1: "manifest ?L = Some ?M" by simp
  have e: "ensure_manifest ?L ?E = (None, [], ?L)" using t h1 by blast
  have h2: "truthy (assetUrlCache ?L ''robot.urdf'') = None"
    by (simp add: new_CDNAssetLoader_def truthy_def)
  have h3: "assets ?M = [?a1] @ ?a2 # [?a3]" "original ?a2 = ''robot.urdf''"
    "\<forall>b \<in> set [?a1]. original b \<noteq> ''robot.urdf''"
    by simp_all
  have "getAssetUrl ?L ?E ''robot.urdf'' =
        (Inr (spec_asset_url (publicUrl ?L) ?a2), [],
         ?L\<lparr> assetUrlCache := (assetUrlCache ?L)(''robot.urdf'' \<mapsto> spec_asset_url (publicUrl ?L) ?a2) \<rparr>)"
    using t h1 h2 h3 e by blast
  then show ?thesis
    by (simp add: spec_asset_url_def new_CDNAssetLoader_def)
qed

end
